theory Spec2Isabelle
  imports Main "HOL-Library.Signed_Division"
begin

section \<open>C integers, arrays and loops\<close>

text \<open>
  The program is C: an \<open>int\<close> is a 32-bit signed value, an array is a block of
  \<open>int\<close>s of a fixed length. Reading or writing outside the block, dividing by zero and
  signed overflow are undefined behaviour; the model makes each of them a \<open>fault\<close>, so a
  run that returns \<open>Inr\<close> is a run on which none of them happened.

  Values are modelled as \<open>int\<close>. The one sum of two data values in the program (the
  relaxation sum \<open>dist_glbl_u + loc_mat[...]\<close>) is checked against the 32-bit range by
  \<open>c_add\<close>, and the sizes \<open>n * loc_n\<close> and \<open>n * n\<close> that \<open>main\<close> and \<open>Read_matrix\<close> compute
  in \<open>int\<close> by \<open>c_mul\<close>. Index expressions are computed on \<open>int\<close> and checked against the
  array bounds where they are used; inside a block of \<open>n * loc_n\<close> cells they are below
  that size.
\<close>

datatype fault = OutOfBounds | Overflow | DivByZero

definition INT_MIN :: int where
  "INT_MIN = - 2147483648"

definition INT_MAX :: int where
  "INT_MAX = 2147483647"

definition rd :: "int list \<Rightarrow> int \<Rightarrow> fault + int" where
  "rd a i = (if 0 \<le> i \<and> i < int (length a) then Inr (a ! nat i) else Inl OutOfBounds)"

definition wr :: "int list \<Rightarrow> int \<Rightarrow> int \<Rightarrow> fault + int list" where
  "wr a i x = (if 0 \<le> i \<and> i < int (length a) then Inr (a[nat i := x]) else Inl OutOfBounds)"

definition c_add :: "int \<Rightarrow> int \<Rightarrow> fault + int" where
  "c_add a b = (if INT_MIN \<le> a + b \<and> a + b \<le> INT_MAX then Inr (a + b) else Inl Overflow)"

definition c_mul :: "int \<Rightarrow> int \<Rightarrow> fault + int" where
  "c_mul a b = (if INT_MIN \<le> a * b \<and> a * b \<le> INT_MAX then Inr (a * b) else Inl Overflow)"

text \<open>C's \<open>%\<close> truncates towards zero: \<open>-1 % 3\<close> is \<open>-1\<close>.\<close>

definition c_mod :: "int \<Rightarrow> int \<Rightarrow> fault + int" where
  "c_mod a b =
     (if b = 0 then Inl DivByZero
      else if a = INT_MIN \<and> b = - 1 then Inl Overflow
      else Inr (a smod b))"

definition c_div :: "int \<Rightarrow> int \<Rightarrow> fault + int" where
  "c_div a b =
     (if b = 0 then Inl DivByZero
      else if a = INT_MIN \<and> b = - 1 then Inl Overflow
      else Inr (a sdiv b))"

text \<open>\<open>for (v = lo; v < hi; v++) body\<close>, where the body may fault.\<close>

function for_loop :: "int \<Rightarrow> int \<Rightarrow> (int \<Rightarrow> 's \<Rightarrow> fault + 's) \<Rightarrow> 's \<Rightarrow> fault + 's" where
  "for_loop v hi body s =
     (if v < hi then
        (case body v s of
           Inl e \<Rightarrow> Inl e
         | Inr s' \<Rightarrow> for_loop (v + 1) hi body s')
      else Inr s)"
  by pat_completeness auto
termination
  by (relation "measure (\<lambda>(v, hi, body, s). nat (hi - v))") auto

declare for_loop.simps [simp del]

text \<open>All processes run the same step; a fault in one of them is a fault of the run.\<close>

fun collect :: "(fault + 'a) list \<Rightarrow> fault + 'a list" where
  "collect [] = Inr []"
| "collect (x # xs) =
     (case x of
        Inl e \<Rightarrow> Inl e
      | Inr v \<Rightarrow> (case collect xs of Inl e \<Rightarrow> Inl e | Inr vs \<Rightarrow> Inr (v # vs)))"

section \<open>The state of one process\<close>

definition INFINITY :: int where
  "INFINITY = 1000000"

text \<open>
  The arrays a process holds: its column block \<open>loc_mat\<close> (\<open>n * loc_n\<close> cells, row-major),
  and \<open>loc_dist\<close>, \<open>loc_pred\<close>, \<open>loc_known\<close> (\<open>loc_n\<close> cells each).
\<close>

record worker =
  my_rank :: int
  loc_mat :: "int list"
  loc_dist :: "int list"
  loc_pred :: "int list"
  loc_known :: "int list"

section \<open>\<open>Find_min_dist\<close>\<close>

text \<open>The loop state is the pair \<open>(shortest_dist, loc_u)\<close>.\<close>

definition Find_min_body :: "int list \<Rightarrow> int list \<Rightarrow> int \<Rightarrow> int \<times> int \<Rightarrow> fault + int \<times> int" where
  "Find_min_body dists knowns loc_v s =
     (case rd knowns loc_v of
        Inl e \<Rightarrow> Inl e
      | Inr k \<Rightarrow>
          if k = 0 then
            (case rd dists loc_v of
               Inl e \<Rightarrow> Inl e
             | Inr d \<Rightarrow> if d < fst s then Inr (d, loc_v) else Inr s)
          else Inr s)"

definition Find_min_dist :: "int list \<Rightarrow> int list \<Rightarrow> int \<Rightarrow> fault + int" where
  "Find_min_dist dists knowns loc_n =
     (case for_loop 0 loc_n (Find_min_body dists knowns) (INFINITY, - 1) of
        Inl e \<Rightarrow> Inl e
      | Inr s \<Rightarrow> Inr (snd s))"

section \<open>\<open>Dijkstra_Init\<close>\<close>

definition Init_known_body :: "int \<Rightarrow> int list \<Rightarrow> fault + int list" where
  "Init_known_body loc_v knowns = wr knowns loc_v 0"

definition Init_dist_body :: "int \<Rightarrow> int \<Rightarrow> worker \<Rightarrow> fault + worker" where
  "Init_dist_body loc_n loc_v w =
     (case rd (loc_mat w) (0 * loc_n + loc_v) of
        Inl e \<Rightarrow> Inl e
      | Inr x \<Rightarrow>
          (case wr (loc_dist w) loc_v x of
             Inl e \<Rightarrow> Inl e
           | Inr d \<Rightarrow>
               (case wr (loc_pred w) loc_v 0 of
                  Inl e \<Rightarrow> Inl e
                | Inr p \<Rightarrow> Inr (w\<lparr>loc_dist := d, loc_pred := p\<rparr>))))"

definition Dijkstra_Init :: "int \<Rightarrow> worker \<Rightarrow> fault + worker" where
  "Dijkstra_Init loc_n w =
     (case wr (loc_known w) 0 (if my_rank w = 0 then 1 else 0) of
        Inl e \<Rightarrow> Inl e
      | Inr k0 \<Rightarrow>
          (case for_loop 1 loc_n Init_known_body k0 of
             Inl e \<Rightarrow> Inl e
           | Inr k \<Rightarrow> for_loop 0 loc_n (Init_dist_body loc_n) (w\<lparr>loc_known := k\<rparr>)))"

section \<open>One round of \<open>Dijkstra\<close>\<close>

text \<open>Lines 276 to 287: the candidate a process hands to the reduction.\<close>

definition my_min :: "int \<Rightarrow> worker \<Rightarrow> fault + int \<times> int" where
  "my_min loc_n w =
     (case Find_min_dist (loc_dist w) (loc_known w) loc_n of
        Inl e \<Rightarrow> Inl e
      | Inr loc_u \<Rightarrow>
          if loc_u \<noteq> - 1 then
            (case rd (loc_dist w) loc_u of
               Inl e \<Rightarrow> Inl e
             | Inr d \<Rightarrow> Inr (d, loc_u + my_rank w * loc_n))
          else Inr (INFINITY, - 1))"

text \<open>
  \<open>MPI_Allreduce\<close> with \<open>MPI_MINLOC\<close> on \<open>MPI_2INT\<close> pairs is the MPI library's, not this
  program's. The MPI standard defines the operator on pairs \<open>(u, i)\<close> and \<open>(v, j)\<close> as
  \<open>(min u v, k)\<close> with \<open>k = i\<close> if \<open>u < v\<close>, \<open>k = min i j\<close> if \<open>u = v\<close> and \<open>k = j\<close> if
  \<open>u > v\<close>; every process receives the combination of all contributions in rank order.
  A communicator has at least one process; for none there is nobody to receive a result.
\<close>

definition MINLOC :: "int \<times> int \<Rightarrow> int \<times> int \<Rightarrow> int \<times> int" where
  "MINLOC a b =
     (if fst a < fst b then a
      else if fst b < fst a then b
      else (fst a, min (snd a) (snd b)))"

fun MPI_Allreduce :: "(int \<times> int) list \<Rightarrow> (int \<times> int) option" where
  "MPI_Allreduce [] = None"
| "MPI_Allreduce (c # cs) = Some (foldl MINLOC c cs)"

text \<open>Lines 304 to 313: the body of the relaxation loop.\<close>

definition relax_body :: "int \<Rightarrow> int \<Rightarrow> int \<Rightarrow> int \<Rightarrow> worker \<Rightarrow> fault + worker" where
  "relax_body loc_n glbl_u dist_glbl_u loc_v w =
     (case rd (loc_known w) loc_v of
        Inl e \<Rightarrow> Inl e
      | Inr k \<Rightarrow>
          if k = 0 then
            (case rd (loc_mat w) (glbl_u * loc_n + loc_v) of
               Inl e \<Rightarrow> Inl e
             | Inr wt \<Rightarrow>
                 (case c_add dist_glbl_u wt of
                    Inl e \<Rightarrow> Inl e
                  | Inr new_dist \<Rightarrow>
                      (case rd (loc_dist w) loc_v of
                         Inl e \<Rightarrow> Inl e
                       | Inr d \<Rightarrow>
                           if new_dist < d then
                             (case wr (loc_dist w) loc_v new_dist of
                                Inl e \<Rightarrow> Inl e
                              | Inr d' \<Rightarrow>
                                  (case wr (loc_pred w) loc_v glbl_u of
                                     Inl e \<Rightarrow> Inl e
                                   | Inr p' \<Rightarrow> Inr (w\<lparr>loc_dist := d', loc_pred := p'\<rparr>)))
                           else Inr w)))
          else Inr w)"

text \<open>
  Lines 292 to 314: what a process does with the reduced pair \<open>glbl_min\<close>.
  \<open>None\<close> is the \<open>break\<close>. There is no test of who owns \<open>glbl_min[1]\<close>: every process
  writes \<open>loc_known[glbl_min[1] % loc_n]\<close>.
\<close>

definition after_reduce :: "int \<Rightarrow> int \<times> int \<Rightarrow> worker \<Rightarrow> fault + worker option" where
  "after_reduce loc_n glbl_min w =
     (case c_mod (snd glbl_min) loc_n of
        Inl e \<Rightarrow> Inl e
      | Inr loc_u \<Rightarrow>
          if snd glbl_min = - 1 then Inr None
          else
            (case wr (loc_known w) loc_u 1 of
               Inl e \<Rightarrow> Inl e
             | Inr k \<Rightarrow>
                 (case for_loop 0 loc_n (relax_body loc_n (snd glbl_min) (fst glbl_min))
                         (w\<lparr>loc_known := k\<rparr>) of
                    Inl e \<Rightarrow> Inl e
                  | Inr w' \<Rightarrow> Inr (Some w'))))"

text \<open>
  The processes leave the loop on the value of \<open>glbl_min[1]\<close>, which is the same in all
  of them: either every process continues or every process breaks.
\<close>

fun all_continue :: "'a option list \<Rightarrow> 'a list option" where
  "all_continue [] = Some []"
| "all_continue (x # xs) =
     (case x of
        None \<Rightarrow> None
      | Some v \<Rightarrow> (case all_continue xs of None \<Rightarrow> None | Some vs \<Rightarrow> Some (v # vs)))"

text \<open>The pair the reduction hands to every process in this round.\<close>

definition glbl_min_of :: "int \<Rightarrow> worker list \<Rightarrow> fault + (int \<times> int) option" where
  "glbl_min_of loc_n ws =
     (case collect (map (my_min loc_n) ws) of
        Inl e \<Rightarrow> Inl e
      | Inr cands \<Rightarrow> Inr (MPI_Allreduce cands))"

definition Dijkstra_round :: "int \<Rightarrow> worker list \<Rightarrow> fault + worker list option" where
  "Dijkstra_round loc_n ws =
     (case glbl_min_of loc_n ws of
        Inl e \<Rightarrow> Inl e
      | Inr None \<Rightarrow> Inr None
      | Inr (Some glbl_min) \<Rightarrow>
          (case collect (map (after_reduce loc_n glbl_min) ws) of
             Inl e \<Rightarrow> Inl e
           | Inr rs \<Rightarrow> Inr (all_continue rs)))"

section \<open>\<open>Dijkstra\<close>\<close>

text \<open>\<open>for (i = 0; i < n - 1; i++)\<close> with its \<open>break\<close>.\<close>

function Dijkstra_loop :: "int \<Rightarrow> int \<Rightarrow> int \<Rightarrow> worker list \<Rightarrow> fault + worker list" where
  "Dijkstra_loop loc_n n i ws =
     (if i < n - 1 then
        (case Dijkstra_round loc_n ws of
           Inl e \<Rightarrow> Inl e
         | Inr None \<Rightarrow> Inr ws
         | Inr (Some ws') \<Rightarrow> Dijkstra_loop loc_n n (i + 1) ws')
      else Inr ws)"
  by pat_completeness auto
termination
  by (relation "measure (\<lambda>(loc_n, n, i, ws). nat (n - 1 - i))") auto

declare Dijkstra_loop.simps [simp del]

text \<open>
  \<open>loc_known = malloc(loc_n * sizeof(int))\<close>: the contents of the fresh block are
  indeterminate; \<open>Dijkstra_Init\<close> writes every cell before any is read. The block is
  modelled as \<open>loc_n\<close> zeros (lemma \<open>Dijkstra_Init_fresh_blocks\<close> below: any other contents
  of \<open>loc_known\<close>, \<open>loc_dist\<close> and \<open>loc_pred\<close> give the same state).
\<close>

definition Dijkstra :: "int \<Rightarrow> int \<Rightarrow> worker list \<Rightarrow> fault + worker list" where
  "Dijkstra loc_n n ws =
     (case collect (map (\<lambda>w. Dijkstra_Init loc_n (w\<lparr>loc_known := replicate (nat loc_n) 0\<rparr>)) ws) of
        Inl e \<Rightarrow> Inl e
      | Inr ws0 \<Rightarrow> Dijkstra_loop loc_n n 0 ws0)"

section \<open>\<open>main\<close>: set-up, distribution and gathering\<close>

text \<open>
  \<open>Read_matrix\<close> as rank \<open>r\<close> sees it. Rank 0 allocates \<open>n * n * sizeof(int)\<close> (line 223)
  and every rank passes the count \<open>n * loc_n\<close> (line 230); both products are \<open>int\<close>.
  \<open>MPI_Scatter\<close> with the block-column type of \<open>Build_blk_col_type\<close>: the block of rank
  \<open>r\<close> starts \<open>r * loc_n\<close> cells into \<open>mat\<close> and takes, from each of the \<open>n\<close> rows (stride
  \<open>n\<close>), \<open>loc_n\<close> consecutive cells; they arrive contiguously in \<open>loc_mat\<close>.
\<close>

definition Read_matrix :: "int list \<Rightarrow> int \<Rightarrow> int \<Rightarrow> int \<Rightarrow> fault + int list" where
  "Read_matrix mat n loc_n r =
     (case (if r = 0 then c_mul n n else Inr 0) of
        Inl e \<Rightarrow> Inl e
      | Inr _ \<Rightarrow>
          (case c_mul n loc_n of
             Inl e \<Rightarrow> Inl e
           | Inr _ \<Rightarrow>
               collect (concat (map (\<lambda>i. map (\<lambda>j. rd mat (r * loc_n + i * n + j)) [0..loc_n - 1])
                                 [0..n - 1]))))"

text \<open>\<open>MPI_Gather\<close> of \<open>loc_n\<close> cells from each process, in rank order.\<close>

definition MPI_Gather :: "int \<Rightarrow> int list list \<Rightarrow> int list" where
  "MPI_Gather loc_n arrs = concat (map (take (nat loc_n)) arrs)"

datatype error = AllocFailed | Undefined fault

text \<open>
  Lines 62 to 86 of \<open>main\<close>. \<open>p\<close> is the size of the communicator, \<open>n\<close> and \<open>mat\<close> are what
  rank 0 reads from the input, \<open>alloc_ok\<close> says whether the three \<open>malloc\<close>s succeeded.
  Line 69 computes \<open>n * loc_n\<close> in \<open>int\<close> before the allocation is tested. The arrays
  \<open>loc_dist\<close> and \<open>loc_pred\<close> are fresh blocks of \<open>loc_n\<close> cells (modelled as zeros;
  \<open>Dijkstra_Init\<close> overwrites them).
\<close>

definition main_setup :: "bool \<Rightarrow> int \<Rightarrow> int \<Rightarrow> int list \<Rightarrow> error + int \<times> worker list" where
  "main_setup alloc_ok p n mat =
     (case c_div n p of
        Inl e \<Rightarrow> Inl (Undefined e)
      | Inr loc_n \<Rightarrow>
          (case c_mul n loc_n of
             Inl e \<Rightarrow> Inl (Undefined e)
           | Inr _ \<Rightarrow>
               if \<not> alloc_ok then Inl AllocFailed
               else
                 (case collect (map (\<lambda>r.
                          case Read_matrix mat n loc_n r of
                            Inl e \<Rightarrow> Inl e
                          | Inr blk \<Rightarrow>
                              Inr \<lparr>my_rank = r, loc_mat = blk,
                                   loc_dist = replicate (nat loc_n) 0,
                                   loc_pred = replicate (nat loc_n) 0,
                                   loc_known = []\<rparr>) [0..p - 1]) of
                    Inl e \<Rightarrow> Inl (Undefined e)
                  | Inr ws \<Rightarrow> Inr (loc_n, ws))))"

text \<open>Lines 62 to 100: the run up to the gathered \<open>global_dist\<close> and \<open>global_pred\<close>.\<close>

definition main :: "bool \<Rightarrow> int \<Rightarrow> int \<Rightarrow> int list \<Rightarrow> error + int list \<times> int list" where
  "main alloc_ok p n mat =
     (case main_setup alloc_ok p n mat of
        Inl e \<Rightarrow> Inl e
      | Inr (loc_n, ws) \<Rightarrow>
          (case Dijkstra loc_n n ws of
             Inl e \<Rightarrow> Inl (Undefined e)
           | Inr ws' \<Rightarrow>
               Inr (MPI_Gather loc_n (map loc_dist ws'), MPI_Gather loc_n (map loc_pred ws'))))"

section \<open>\<open>Print_paths\<close>\<close>

text \<open>
  The \<open>while (w != 0)\<close> loop of \<open>Print_paths\<close>. Nothing in the loop bounds the number of
  iterations, so the model is a partial function: \<open>None\<close> is a loop that never ends.
\<close>

partial_function (option) path_loop ::
  "int list \<Rightarrow> int list \<Rightarrow> int \<Rightarrow> int \<Rightarrow> (fault + int list \<times> int) option" where
  "path_loop global_pred path count w =
     (if w \<noteq> 0 then
        (case wr path count w of
           Inl e \<Rightarrow> Some (Inl e)
         | Inr path' \<Rightarrow>
             (case rd global_pred w of
                Inl e \<Rightarrow> Some (Inl e)
              | Inr w' \<Rightarrow> path_loop global_pred path' (count + 1) w'))
      else Some (Inr (path, count)))"

declare path_loop.simps [code]

text \<open>
  The vertices printed for \<open>v\<close>: \<open>0\<close>, then \<open>path[count - 1]\<close> down to \<open>path[0]\<close>.
  \<open>path\<close> is a block of \<open>n\<close> cells, used again for every \<open>v\<close>; only the cells below
  \<open>count\<close>, written for this \<open>v\<close>, are read, so the block starts as zeros here.
\<close>

definition Print_path :: "int list \<Rightarrow> int \<Rightarrow> int \<Rightarrow> (fault + int list) option" where
  "Print_path global_pred n v =
     (case path_loop global_pred (replicate (nat n) 0) 0 v of
        None \<Rightarrow> None
      | Some (Inl e) \<Rightarrow> Some (Inl e)
      | Some (Inr (path, count)) \<Rightarrow> Some (Inr (0 # rev (take (nat count) path))))"

definition Print_paths :: "int list \<Rightarrow> int \<Rightarrow> (fault + int list) option list" where
  "Print_paths global_pred n = map (Print_path global_pred n) [1..n - 1]"

section \<open>Well-formed states\<close>

text \<open>
  The shapes the program relies on (lines 68 to 71 and 270): \<open>p\<close> processes with ranks
  \<open>0\<close> to \<open>p - 1\<close>, \<open>n = p * loc_n\<close> with \<open>loc_n\<close> positive, a block of \<open>n * loc_n\<close> cells
  and arrays of \<open>loc_n\<close> cells in every process.
\<close>

definition wf_alloc :: "int \<Rightarrow> int \<Rightarrow> worker \<Rightarrow> bool" where
  "wf_alloc n loc_n w \<longleftrightarrow>
     length (loc_mat w) = nat (n * loc_n) \<and>
     length (loc_dist w) = nat loc_n \<and>
     length (loc_pred w) = nat loc_n"

definition wf_worker :: "int \<Rightarrow> int \<Rightarrow> worker \<Rightarrow> bool" where
  "wf_worker n loc_n w \<longleftrightarrow> wf_alloc n loc_n w \<and> length (loc_known w) = nat loc_n"

definition wf_ranks :: "int \<Rightarrow> int \<Rightarrow> worker list \<Rightarrow> bool" where
  "wf_ranks n loc_n ws \<longleftrightarrow>
     0 < loc_n \<and> ws \<noteq> [] \<and> n = int (length ws) * loc_n \<and>
     map my_rank ws = [0..int (length ws) - 1]"

text \<open>The group as \<open>main\<close> hands it to \<open>Dijkstra\<close>, and the group inside the loop.\<close>

definition wf_start :: "int \<Rightarrow> int \<Rightarrow> worker list \<Rightarrow> bool" where
  "wf_start n loc_n ws \<longleftrightarrow> wf_ranks n loc_n ws \<and> list_all (wf_alloc n loc_n) ws"

definition wf_group :: "int \<Rightarrow> int \<Rightarrow> worker list \<Rightarrow> bool" where
  "wf_group n loc_n ws \<longleftrightarrow> wf_ranks n loc_n ws \<and> list_all (wf_worker n loc_n) ws"

text \<open>The arrays of the whole group by global vertex index, as \<open>MPI_Gather\<close> lays them out.\<close>

definition global_dist :: "int \<Rightarrow> worker list \<Rightarrow> int list" where
  "global_dist loc_n ws = MPI_Gather loc_n (map loc_dist ws)"

definition global_pred :: "int \<Rightarrow> worker list \<Rightarrow> int list" where
  "global_pred loc_n ws = MPI_Gather loc_n (map loc_pred ws)"

definition global_known :: "int \<Rightarrow> worker list \<Rightarrow> int list" where
  "global_known loc_n ws = MPI_Gather loc_n (map loc_known ws)"

text \<open>Weights and distances between \<open>0\<close> and the no-edge constant.\<close>

definition in_range :: "int list \<Rightarrow> bool" where
  "in_range xs \<longleftrightarrow> list_all (\<lambda>x. 0 \<le> x \<and> x \<le> INFINITY) xs"

definition weights_ok :: "worker list \<Rightarrow> bool" where
  "weights_ok ws \<longleftrightarrow> list_all (\<lambda>w. in_range (loc_mat w)) ws"

definition dists_ok :: "worker list \<Rightarrow> bool" where
  "dists_ok ws \<longleftrightarrow> list_all (\<lambda>w. in_range (loc_dist w)) ws"

text \<open>Following predecessor links from \<open>w\<close> arrives at vertex \<open>0\<close> within \<open>k\<close> steps.\<close>

fun reaches :: "nat \<Rightarrow> int list \<Rightarrow> int \<Rightarrow> bool" where
  "reaches 0 ps w = (w = 0)"
| "reaches (Suc k) ps w =
     (w = 0 \<or> (0 \<le> w \<and> w < int (length ps) \<and> reaches k ps (ps ! nat w)))"

section \<open>The scenario of the specification\<close>

text \<open>
  The four-vertex matrix of the scenario (row-major), and the group of two processes
  (\<open>loc_n = 2\<close>) on it as it stands when the driver loop starts.
\<close>

definition scenario :: "int list" where
  "scenario =
     [0, 1, 4, 1000000,
      1000000, 0, 2, 5,
      1000000, 1000000, 0, 1,
      1000000, 1000000, 1000000, 0]"

definition scenario_group :: "worker list" where
  "scenario_group =
     [\<lparr>my_rank = 0, loc_mat = [0, 1, 1000000, 0, 1000000, 1000000, 1000000, 1000000],
       loc_dist = [0, 1], loc_pred = [0, 0], loc_known = [1, 0]\<rparr>,
      \<lparr>my_rank = 1, loc_mat = [4, 1000000, 2, 5, 0, 1, 1000000, 0],
       loc_dist = [4, 1000000], loc_pred = [0, 0], loc_known = [0, 0]\<rparr>]"

text \<open>
  The same group as \<open>main\<close> hands it to \<open>Dijkstra\<close>, and as it stands after the first
  round of the driver loop.
\<close>

definition scenario_start :: "worker list" where
  "scenario_start =
     [\<lparr>my_rank = 0, loc_mat = [0, 1, 1000000, 0, 1000000, 1000000, 1000000, 1000000],
       loc_dist = [0, 0], loc_pred = [0, 0], loc_known = []\<rparr>,
      \<lparr>my_rank = 1, loc_mat = [4, 1000000, 2, 5, 0, 1, 1000000, 0],
       loc_dist = [0, 0], loc_pred = [0, 0], loc_known = []\<rparr>]"

definition scenario_round :: "worker list" where
  "scenario_round =
     [\<lparr>my_rank = 0, loc_mat = [0, 1, 1000000, 0, 1000000, 1000000, 1000000, 1000000],
       loc_dist = [0, 1], loc_pred = [0, 0], loc_known = [1, 1]\<rparr>,
      \<lparr>my_rank = 1, loc_mat = [4, 1000000, 2, 5, 0, 1, 1000000, 0],
       loc_dist = [3, 1000000], loc_pred = [1, 0], loc_known = [0, 1]\<rparr>]"

text \<open>The group when \<open>Dijkstra\<close> returns on the scenario with two processes.\<close>

definition scenario_final :: "worker list" where
  "scenario_final =
     [\<lparr>my_rank = 0, loc_mat = [0, 1, 1000000, 0, 1000000, 1000000, 1000000, 1000000],
       loc_dist = [0, 1], loc_pred = [0, 0], loc_known = [1, 1]\<rparr>,
      \<lparr>my_rank = 1, loc_mat = [4, 1000000, 2, 5, 0, 1, 1000000, 0],
       loc_dist = [3, 1000000], loc_pred = [1, 0], loc_known = [1, 1]\<rparr>]"

section \<open>Further inputs\<close>

text \<open>
  A five by five matrix whose cells are all different, for a run with two processes
  (\<open>5\<close> is not a multiple of \<open>2\<close>).
\<close>

definition five_by_five :: "int list" where
  "five_by_five =
     [0, 1, 2, 3, 4,
      5, 6, 7, 8, 9,
      10, 11, 12, 13, 14,
      15, 16, 17, 18, 19,
      20, 21, 22, 23, 24]"




text \<open>
  Four vertices, the three others at the same distance \<open>5\<close> from vertex 0. With two
  processes (\<open>loc_n = 2\<close>): the group as \<open>main\<close> hands it to \<open>Dijkstra\<close>, as it stands
  when the driver loop starts, and after the first round.
\<close>

definition tie_matrix :: "int list" where
  "tie_matrix =
     [0, 5, 5, 5,
      9, 0, 9, 9,
      9, 9, 0, 9,
      9, 9, 9, 0]"

definition tie_start :: "worker list" where
  "tie_start =
     [\<lparr>my_rank = 0, loc_mat = [0, 5, 9, 0, 9, 9, 9, 9],
       loc_dist = [0, 0], loc_pred = [0, 0], loc_known = []\<rparr>,
      \<lparr>my_rank = 1, loc_mat = [5, 5, 9, 9, 0, 9, 9, 0],
       loc_dist = [0, 0], loc_pred = [0, 0], loc_known = []\<rparr>]"

definition tie_group :: "worker list" where
  "tie_group =
     [\<lparr>my_rank = 0, loc_mat = [0, 5, 9, 0, 9, 9, 9, 9],
       loc_dist = [0, 5], loc_pred = [0, 0], loc_known = [1, 0]\<rparr>,
      \<lparr>my_rank = 1, loc_mat = [5, 5, 9, 9, 0, 9, 9, 0],
       loc_dist = [5, 5], loc_pred = [0, 0], loc_known = [0, 0]\<rparr>]"

definition tie_round :: "worker list" where
  "tie_round =
     [\<lparr>my_rank = 0, loc_mat = [0, 5, 9, 0, 9, 9, 9, 9],
       loc_dist = [0, 5], loc_pred = [0, 0], loc_known = [1, 1]\<rparr>,
      \<lparr>my_rank = 1, loc_mat = [5, 5, 9, 9, 0, 9, 9, 0],
       loc_dist = [5, 5], loc_pred = [0, 0], loc_known = [0, 1]\<rparr>]"

text \<open>
  The same matrix on one process (\<open>loc_n = 4\<close>): the group as \<open>main\<close> hands it to
  \<open>Dijkstra\<close>, when the driver loop starts, after the first round and after the second.
\<close>

definition tie_single_start :: "worker list" where
  "tie_single_start =
     [\<lparr>my_rank = 0, loc_mat = tie_matrix,
       loc_dist = [0, 0, 0, 0], loc_pred = [0, 0, 0, 0], loc_known = []\<rparr>]"

definition tie_single :: "worker list" where
  "tie_single =
     [\<lparr>my_rank = 0, loc_mat = tie_matrix,
       loc_dist = [0, 5, 5, 5], loc_pred = [0, 0, 0, 0], loc_known = [1, 0, 0, 0]\<rparr>]"

definition tie_single_round :: "worker list" where
  "tie_single_round =
     [\<lparr>my_rank = 0, loc_mat = tie_matrix,
       loc_dist = [0, 5, 5, 5], loc_pred = [0, 0, 0, 0], loc_known = [1, 1, 0, 0]\<rparr>]"

definition tie_single_second :: "worker list" where
  "tie_single_second =
     [\<lparr>my_rank = 0, loc_mat = tie_matrix,
       loc_dist = [0, 5, 5, 5], loc_pred = [0, 0, 0, 0], loc_known = [1, 1, 1, 0]\<rparr>]"

section \<open>Predicates used in the proofs\<close>

text \<open>
  What a process contributes: the sentinel when no unknown local vertex has a distance
  below \<open>INFINITY\<close>, otherwise its first unknown vertex of least distance.
\<close>

definition cand_spec :: "int \<Rightarrow> worker \<Rightarrow> int \<times> int \<Rightarrow> bool" where
  "cand_spec loc_n w c \<longleftrightarrow>
     (fst c = INFINITY \<and> snd c = - 1 \<and>
        (\<forall>j. 0 \<le> j \<and> j < loc_n \<and> loc_known w ! nat j = 0 \<longrightarrow> INFINITY \<le> loc_dist w ! nat j)
      \<or> (\<exists>u. 0 \<le> u \<and> u < loc_n \<and> snd c = u + my_rank w * loc_n \<and>
            loc_known w ! nat u = 0 \<and> loc_dist w ! nat u = fst c \<and> fst c < INFINITY \<and>
            (\<forall>j. 0 \<le> j \<and> j < loc_n \<and> loc_known w ! nat j = 0 \<longrightarrow>
                  fst c \<le> loc_dist w ! nat j \<and> (j < u \<longrightarrow> fst c < loc_dist w ! nat j))))"

text \<open>The state of a process after the relaxation loop, cell by cell.\<close>

definition relaxed :: "int \<Rightarrow> int \<Rightarrow> int \<Rightarrow> worker \<Rightarrow> worker \<Rightarrow> bool" where
  "relaxed loc_n glbl_u dist_glbl_u w w' \<longleftrightarrow>
     my_rank w' = my_rank w \<and> loc_mat w' = loc_mat w \<and> loc_known w' = loc_known w \<and>
     length (loc_dist w') = length (loc_dist w) \<and> length (loc_pred w') = length (loc_pred w) \<and>
     (\<forall>j. 0 \<le> j \<and> j < loc_n \<longrightarrow>
        (if loc_known w ! nat j = 0 \<and>
            dist_glbl_u + loc_mat w ! nat (glbl_u * loc_n + j) < loc_dist w ! nat j
         then loc_dist w' ! nat j = dist_glbl_u + loc_mat w ! nat (glbl_u * loc_n + j) \<and>
              loc_pred w' ! nat j = glbl_u
         else loc_dist w' ! nat j = loc_dist w ! nat j \<and> loc_pred w' ! nat j = loc_pred w ! nat j))"

text \<open>Some relaxation sum of the round leaves the 32-bit range.\<close>

definition sum_overflows :: "int \<Rightarrow> int \<Rightarrow> int \<Rightarrow> worker \<Rightarrow> bool" where
  "sum_overflows loc_n glbl_u dist_glbl_u w \<longleftrightarrow>
     (\<exists>j. 0 \<le> j \<and> j < loc_n \<and> loc_known w ! nat j = 0 \<and>
          \<not> (INT_MIN \<le> dist_glbl_u + loc_mat w ! nat (glbl_u * loc_n + j) \<and>
             dist_glbl_u + loc_mat w ! nat (glbl_u * loc_n + j) \<le> INT_MAX))"

text \<open>The state of a process after line 300 (\<open>glbl_u\<close> not negative, \<open>loc_n\<close> positive).\<close>

definition marked :: "int \<Rightarrow> int \<Rightarrow> worker \<Rightarrow> worker" where
  "marked loc_n glbl_u w = w\<lparr>loc_known := (loc_known w)[nat (glbl_u mod loc_n) := 1]\<rparr>"

text \<open>
  The reduced pair: the sentinel when every process contributed it, otherwise the least
  pair (distance, global index) over the unknown vertices of the whole group.
\<close>

definition winner_spec :: "int \<Rightarrow> worker list \<Rightarrow> int \<times> int \<Rightarrow> bool" where
  "winner_spec loc_n ws g \<longleftrightarrow>
     (fst g = INFINITY \<and> snd g = - 1 \<and>
        (\<forall>r j. r < length ws \<and> 0 \<le> j \<and> j < loc_n \<and> loc_known (ws ! r) ! nat j = 0 \<longrightarrow>
               INFINITY \<le> loc_dist (ws ! r) ! nat j))
     \<or> (\<exists>r u. r < length ws \<and> 0 \<le> u \<and> u < loc_n \<and> snd g = u + int r * loc_n \<and>
            loc_known (ws ! r) ! nat u = 0 \<and> loc_dist (ws ! r) ! nat u = fst g \<and> fst g < INFINITY \<and>
            (\<forall>r' j. r' < length ws \<and> 0 \<le> j \<and> j < loc_n \<and> loc_known (ws ! r') ! nat j = 0 \<longrightarrow>
                fst g < loc_dist (ws ! r') ! nat j \<or>
                fst g = loc_dist (ws ! r') ! nat j \<and> snd g \<le> j + int r' * loc_n))"

text \<open>The group after a completed round with reduced pair \<open>g\<close>.\<close>

definition round_spec :: "int \<Rightarrow> int \<times> int \<Rightarrow> worker list \<Rightarrow> worker list \<Rightarrow> bool" where
  "round_spec loc_n g ws ws' \<longleftrightarrow>
     length ws' = length ws \<and>
     (\<forall>r < length ws. relaxed loc_n (snd g) (fst g) (marked loc_n (snd g) (ws ! r)) (ws' ! r))"

text \<open>The state of a process after \<open>Dijkstra_Init\<close>, cell by cell.\<close>

definition initialised :: "int \<Rightarrow> worker \<Rightarrow> worker \<Rightarrow> bool" where
  "initialised loc_n w w' \<longleftrightarrow>
     my_rank w' = my_rank w \<and> loc_mat w' = loc_mat w \<and>
     length (loc_dist w') = nat loc_n \<and> length (loc_pred w') = nat loc_n \<and>
     length (loc_known w') = nat loc_n \<and>
     (\<forall>j. 0 \<le> j \<and> j < loc_n \<longrightarrow>
        loc_dist w' ! nat j = loc_mat w ! nat j \<and> loc_pred w' ! nat j = 0 \<and>
        loc_known w' ! nat j = (if my_rank w = 0 \<and> j = 0 then 1 else 0))"

text \<open>Cell \<open>j\<close> of a process between an earlier state \<open>w\<close> and a later state \<open>w'\<close>.\<close>

definition no_increase :: "worker \<Rightarrow> worker \<Rightarrow> int \<Rightarrow> bool" where
  "no_increase w w' j \<longleftrightarrow>
     loc_dist w' ! nat j \<le> loc_dist w ! nat j \<and>
     (loc_known w ! nat j \<noteq> 0 \<longrightarrow>
        loc_known w' ! nat j \<noteq> 0 \<and> loc_dist w' ! nat j = loc_dist w ! nat j)"

text \<open>
  The invariant of the predecessor array \<open>ps\<close> with the known flags \<open>ks\<close>: every
  predecessor is a vertex that is marked known, and every chain arrives at vertex \<open>0\<close>
  within \<open>k\<close> steps.
\<close>

definition chain_inv :: "nat \<Rightarrow> int \<Rightarrow> int list \<Rightarrow> int list \<Rightarrow> bool" where
  "chain_inv k n ps ks \<longleftrightarrow>
     int (length ps) = n \<and> int (length ks) = n \<and>
     (\<forall>v. 0 \<le> v \<and> v < n \<longrightarrow>
        0 \<le> ps ! nat v \<and> ps ! nat v < n \<and> ks ! nat (ps ! nat v) \<noteq> 0 \<and> reaches k ps v)"

text \<open>
  The reduced pair in terms of the arrays of the whole group: the sentinel when no unknown
  vertex has a distance below \<open>INFINITY\<close>, otherwise the unknown vertex of least distance
  and, among those, of least index.
\<close>

definition global_winner :: "int \<Rightarrow> int list \<Rightarrow> int list \<Rightarrow> int \<times> int \<Rightarrow> bool" where
  "global_winner n gd gk g \<longleftrightarrow>
     (fst g = INFINITY \<and> snd g = - 1 \<and>
        (\<forall>v. 0 \<le> v \<and> v < n \<and> gk ! nat v = 0 \<longrightarrow> INFINITY \<le> gd ! nat v))
     \<or> (0 \<le> snd g \<and> snd g < n \<and> gk ! nat (snd g) = 0 \<and> gd ! nat (snd g) = fst g \<and>
         fst g < INFINITY \<and>
         (\<forall>v. 0 \<le> v \<and> v < n \<and> gk ! nat v = 0 \<longrightarrow>
              fst g < gd ! nat v \<or> fst g = gd ! nat v \<and> snd g \<le> v))"

section \<open>Arrays, loops and the group\<close>

lemma rd_Inr: "0 \<le> i \<Longrightarrow> i < int (length a) \<Longrightarrow> rd a i = Inr (a ! nat i)"
  by (simp add: rd_def)

lemma wr_Inr: "0 \<le> i \<Longrightarrow> i < int (length a) \<Longrightarrow> wr a i x = Inr (a[nat i := x])"
  by (simp add: wr_def)

lemma for_loop_rule:
  assumes "I v s" and "lo \<le> v"
    and step: "\<And>u t. lo \<le> u \<Longrightarrow> u < hi \<Longrightarrow> I u t \<Longrightarrow>
                 (case body u t of Inl e \<Rightarrow> E e | Inr t' \<Rightarrow> I (u + 1) t')"
  shows "case for_loop v hi body s of Inl e \<Rightarrow> E e | Inr s' \<Rightarrow> I (max v hi) s'"
  using assms(1,2)
proof (induction "nat (hi - v)" arbitrary: v s)
  case 0
  then show ?case by (simp add: for_loop.simps max_def)
next
  case (Suc k)
  then have lt: "v < hi" by simp
  show ?case
  proof (cases "body v s")
    case (Inl e)
    with lt step [OF Suc.prems(2) lt Suc.prems(1)] show ?thesis
      by (simp add: for_loop.simps)
  next
    case (Inr t)
    with step [OF Suc.prems(2) lt Suc.prems(1)] have i: "I (v + 1) t" by simp
    have k: "k = nat (hi - (v + 1))" using Suc.hyps(2) by simp
    have l: "lo \<le> v + 1" using Suc.prems(2) by simp
    have "case for_loop (v + 1) hi body t of Inl e \<Rightarrow> E e | Inr s' \<Rightarrow> I (max (v + 1) hi) s'"
      by (rule Suc.hyps(1) [OF k i l])
    moreover have "max (v + 1) hi = max v hi" using lt by simp
    moreover have "for_loop v hi body s = for_loop (v + 1) hi body t"
      using lt Inr by (simp add: for_loop.simps [of v])
    ultimately show ?thesis by (simp only:)
  qed
qed

lemma collect_Inr_iff:
  "collect xs = Inr vs \<longleftrightarrow> xs = map Inr vs"
proof (induction xs arbitrary: vs)
  case Nil
  show ?case by auto
next
  case (Cons x xs)
  show ?case
  proof (cases x)
    case (Inl e)
    then show ?thesis by auto
  next
    case (Inr v)
    show ?thesis
    proof (cases "collect xs")
      case (Inl e)
      with Cons.IH have "\<And>us. xs \<noteq> map Inr us" by auto
      with Inl Inr show ?thesis by auto
    next
      case (Inr us)
      with Cons.IH [of us] have "xs = map Inr us" by simp
      with Inr \<open>x = Inr v\<close> show ?thesis by auto
    qed
  qed
qed

lemma collect_Inl:
  "collect xs = Inl e \<Longrightarrow> Inl e \<in> set xs"
  by (induction xs) (auto split: sum.splits)

lemma collect_map_total:
  "(\<And>x. x \<in> set xs \<Longrightarrow> \<exists>y. f x = Inr y) \<Longrightarrow> \<exists>ys. collect (map f xs) = Inr ys"
proof (induction xs)
  case Nil
  show ?case by simp
next
  case (Cons x xs)
  from Cons.prems obtain y where "f x = Inr y" by auto
  moreover from Cons obtain ys where "collect (map f xs) = Inr ys" by auto
  ultimately show ?case by simp
qed

lemma collect_map_nth:
  "collect (map f xs) = Inr ys \<Longrightarrow> length ys = length xs \<and> (\<forall>i < length xs. f (xs ! i) = Inr (ys ! i))"
  by (auto simp: collect_Inr_iff list_eq_iff_nth_eq)

lemma all_continue_Some_iff:
  "all_continue xs = Some vs \<longleftrightarrow> xs = map Some vs"
proof (induction xs arbitrary: vs)
  case Nil
  show ?case by auto
next
  case (Cons x xs)
  show ?case
  proof (cases x)
    case None
    then show ?thesis by auto
  next
    case (Some v)
    show ?thesis
    proof (cases "all_continue xs")
      case None
      with Cons.IH have "\<And>us. xs \<noteq> map Some us" by auto
      with None Some show ?thesis by auto
    next
      case (Some us)
      with Cons.IH [of us] have "xs = map Some us" by simp
      with Some \<open>x = Some v\<close> show ?thesis by auto
    qed
  qed
qed

lemma Find_min_body_step:
  assumes len: "length dists = nat loc_n" "length knowns = nat loc_n"
    and v: "0 \<le> v" "v < loc_n"
  shows "Find_min_body dists knowns v s =
         Inr (if knowns ! nat v = 0 \<and> dists ! nat v < fst s then (dists ! nat v, v) else s)"
  using assms by (simp add: Find_min_body_def rd_Inr)

lemma Find_min_loop_spec:
  assumes len: "length dists = nat loc_n" "length knowns = nat loc_n"
  shows "\<exists>sd u. for_loop 0 loc_n (Find_min_body dists knowns) (INFINITY, - 1) = Inr (sd, u) \<and>
           (u = - 1 \<and> sd = INFINITY \<or>
            0 \<le> u \<and> u < loc_n \<and> knowns ! nat u = 0 \<and> dists ! nat u = sd \<and> sd < INFINITY) \<and>
           (\<forall>j. 0 \<le> j \<and> j < loc_n \<and> knowns ! nat j = 0 \<longrightarrow>
                 sd \<le> dists ! nat j \<and> (j < u \<longrightarrow> sd < dists ! nat j))"
proof -
  define I where "I = (\<lambda>(v::int) (s::int \<times> int).
      (snd s = - 1 \<and> fst s = INFINITY \<or>
       0 \<le> snd s \<and> snd s < v \<and> knowns ! nat (snd s) = 0 \<and> dists ! nat (snd s) = fst s \<and> fst s < INFINITY) \<and>
      (\<forall>j. 0 \<le> j \<and> j < v \<and> knowns ! nat j = 0 \<longrightarrow>
            fst s \<le> dists ! nat j \<and> (j < snd s \<longrightarrow> fst s < dists ! nat j)))"
  have init: "I 0 (INFINITY, - 1)" by (simp add: I_def)
  have step: "case Find_min_body dists knowns u t of Inl e \<Rightarrow> False | Inr t' \<Rightarrow> I (u + 1) t'"
    if "0 \<le> u" "u < loc_n" "I u t" for u t
  proof -
    have b: "Find_min_body dists knowns u t =
         Inr (if knowns ! nat u = 0 \<and> dists ! nat u < fst t then (dists ! nat u, u) else t)"
      using len that(1,2) by (rule Find_min_body_step)
    have "I (u + 1) (if knowns ! nat u = 0 \<and> dists ! nat u < fst t then (dists ! nat u, u) else t)"
    proof (cases "knowns ! nat u = 0 \<and> dists ! nat u < fst t")
      case True
      have le: "fst t \<le> INFINITY" using that(3) by (auto simp: I_def)
      have c: "(if knowns ! nat u = 0 \<and> dists ! nat u < fst t then (dists ! nat u, u) else t) = (dists ! nat u, u)"
        by (rule if_P [OF True])
      have "\<forall>j. 0 \<le> j \<and> j < u + 1 \<and> knowns ! nat j = 0 \<longrightarrow>
            dists ! nat u \<le> dists ! nat j \<and> (j < u \<longrightarrow> dists ! nat u < dists ! nat j)"
      proof (intro allI impI)
        fix j assume j: "0 \<le> j \<and> j < u + 1 \<and> knowns ! nat j = 0"
        show "dists ! nat u \<le> dists ! nat j \<and> (j < u \<longrightarrow> dists ! nat u < dists ! nat j)"
        proof (cases "j = u")
          case True then show ?thesis by simp
        next
          case False
          with j have "j < u" by simp
          with j that(3) have "fst t \<le> dists ! nat j" by (auto simp: I_def)
          with True show ?thesis by auto
        qed
      qed
      moreover have "0 \<le> u \<and> u < u + 1 \<and> knowns ! nat u = 0 \<and> dists ! nat u = dists ! nat u \<and> dists ! nat u < INFINITY"
        using True le that(1) by simp
      ultimately show ?thesis unfolding c I_def fst_conv snd_conv by blast
    next
      case False
      have c: "(if knowns ! nat u = 0 \<and> dists ! nat u < fst t then (dists ! nat u, u) else t) = t"
        by (rule if_not_P [OF False])
      have "\<forall>j. 0 \<le> j \<and> j < u + 1 \<and> knowns ! nat j = 0 \<longrightarrow>
            fst t \<le> dists ! nat j \<and> (j < snd t \<longrightarrow> fst t < dists ! nat j)"
      proof (intro allI impI)
        fix j assume j: "0 \<le> j \<and> j < u + 1 \<and> knowns ! nat j = 0"
        show "fst t \<le> dists ! nat j \<and> (j < snd t \<longrightarrow> fst t < dists ! nat j)"
        proof (cases "j = u")
          case True
          with j False have "fst t \<le> dists ! nat j" by auto
          moreover have "\<not> u < snd t" using that(1,3) by (auto simp: I_def)
          ultimately show ?thesis using True by simp
        next
          case False
          with j have "j < u" by simp
          with j that(3) show ?thesis by (auto simp: I_def)
        qed
      qed
      moreover have "snd t = - 1 \<and> fst t = INFINITY \<or>
          0 \<le> snd t \<and> snd t < u + 1 \<and> knowns ! nat (snd t) = 0 \<and> dists ! nat (snd t) = fst t \<and> fst t < INFINITY"
        using that(3) by (auto simp: I_def)
      ultimately show ?thesis unfolding c I_def by blast
    qed
    with b show ?thesis by simp
  qed
  have "case for_loop 0 loc_n (Find_min_body dists knowns) (INFINITY, - 1) of
          Inl e \<Rightarrow> False | Inr s' \<Rightarrow> I (max 0 loc_n) s'"
    by (rule for_loop_rule [where lo = 0, OF init _ step]) simp_all
  then obtain s' where r: "for_loop 0 loc_n (Find_min_body dists knowns) (INFINITY, - 1) = Inr s'"
    and i: "I (max 0 loc_n) s'"
    by (auto split: sum.splits)
  have "I loc_n s'"
  proof (cases "0 \<le> loc_n")
    case True with i show ?thesis by (simp add: max_def)
  next
    case False
    with i have "I 0 s'" by (simp add: max_def)
    with False show ?thesis by (auto simp: I_def)
  qed
  with r show ?thesis by (cases s') (auto simp: I_def)
qed

lemma my_min_spec:
  assumes len: "length (loc_dist w) = nat loc_n" "length (loc_known w) = nat loc_n"
  shows "\<exists>d g. my_min loc_n w = Inr (d, g) \<and>
     (d = INFINITY \<and> g = - 1 \<and>
        (\<forall>j. 0 \<le> j \<and> j < loc_n \<and> loc_known w ! nat j = 0 \<longrightarrow> INFINITY \<le> loc_dist w ! nat j)
      \<or> (\<exists>u. 0 \<le> u \<and> u < loc_n \<and> g = u + my_rank w * loc_n \<and>
            loc_known w ! nat u = 0 \<and> loc_dist w ! nat u = d \<and> d < INFINITY \<and>
            (\<forall>j. 0 \<le> j \<and> j < loc_n \<and> loc_known w ! nat j = 0 \<longrightarrow>
                  d \<le> loc_dist w ! nat j \<and> (j < u \<longrightarrow> d < loc_dist w ! nat j))))"
proof -
  from Find_min_loop_spec [OF len] obtain sd u where
    r: "for_loop 0 loc_n (Find_min_body (loc_dist w) (loc_known w)) (INFINITY, - 1) = Inr (sd, u)"
    and c: "u = - 1 \<and> sd = INFINITY \<or>
            0 \<le> u \<and> u < loc_n \<and> loc_known w ! nat u = 0 \<and> loc_dist w ! nat u = sd \<and> sd < INFINITY"
    and m: "\<forall>j. 0 \<le> j \<and> j < loc_n \<and> loc_known w ! nat j = 0 \<longrightarrow>
                 sd \<le> loc_dist w ! nat j \<and> (j < u \<longrightarrow> sd < loc_dist w ! nat j)"
    by blast
  have f: "Find_min_dist (loc_dist w) (loc_known w) loc_n = Inr u"
    by (simp add: Find_min_dist_def r)
  show ?thesis
  proof (cases "u = - 1")
    case True
    with c have "sd = INFINITY" by auto
    with True f m show ?thesis by (simp add: my_min_def)
  next
    case False
    with c have u: "0 \<le> u" "u < loc_n" "loc_known w ! nat u = 0" "loc_dist w ! nat u = sd" "sd < INFINITY"
      by auto
    have "my_min loc_n w = Inr (sd, u + my_rank w * loc_n)"
      using False f u len by (simp add: my_min_def rd_Inr)
    with u m show ?thesis by blast
  qed
qed

lemma MINLOC_cases: "MINLOC a b = a \<or> MINLOC a b = b"
  by (cases a; cases b) (auto simp: MINLOC_def min_def)

lemma MINLOC_le:
  "(fst (MINLOC a b) < fst a \<or> fst (MINLOC a b) = fst a \<and> snd (MINLOC a b) \<le> snd a) \<and>
   (fst (MINLOC a b) < fst b \<or> fst (MINLOC a b) = fst b \<and> snd (MINLOC a b) \<le> snd b)"
  by (auto simp: MINLOC_def min_def)

lemma foldl_MINLOC_spec:
  "foldl MINLOC c cs \<in> set (c # cs) \<and>
   (\<forall>x \<in> set (c # cs). fst (foldl MINLOC c cs) < fst x \<or>
        fst (foldl MINLOC c cs) = fst x \<and> snd (foldl MINLOC c cs) \<le> snd x)"
proof (induction cs arbitrary: c)
  case Nil
  show ?case by simp
next
  case (Cons d ds)
  let ?r = "foldl MINLOC (MINLOC c d) ds"
  from Cons.IH [of "MINLOC c d"]
  have mem: "?r \<in> set (MINLOC c d # ds)"
    and le: "\<forall>x \<in> set (MINLOC c d # ds). fst ?r < fst x \<or> fst ?r = fst x \<and> snd ?r \<le> snd x"
    by blast+
  from le have m: "fst ?r < fst (MINLOC c d) \<or> fst ?r = fst (MINLOC c d) \<and> snd ?r \<le> snd (MINLOC c d)"
    by simp
  have "fst ?r < fst c \<or> fst ?r = fst c \<and> snd ?r \<le> snd c"
    using m MINLOC_le [of c d] by auto
  moreover have "fst ?r < fst d \<or> fst ?r = fst d \<and> snd ?r \<le> snd d"
    using m MINLOC_le [of c d] by auto
  moreover have "?r \<in> set (c # d # ds)"
    using mem MINLOC_cases [of c d] by auto
  ultimately show ?case using le by simp
qed

lemma concat_nth_block:
  assumes "\<forall>a \<in> set arrs. length a = m" "r < length arrs" "j < m"
  shows "concat arrs ! (r * m + j) = arrs ! r ! j"
  using assms
proof (induction arrs arbitrary: r)
  case Nil
  then show ?case by simp
next
  case (Cons a as)
  show ?case
  proof (cases r)
    case 0
    with Cons.prems show ?thesis by (simp add: nth_append)
  next
    case (Suc r')
    with Cons.prems have "concat as ! (r' * m + j) = as ! r' ! j"
      by (intro Cons.IH) auto
    with Suc Cons.prems show ?thesis by (simp add: nth_append)
  qed
qed

lemma concat_length_block:
  "\<forall>a \<in> set arrs. length a = m \<Longrightarrow> length (concat arrs) = length arrs * m"
  by (induction arrs) auto

lemma MPI_Gather_eq:
  "\<forall>a \<in> set arrs. length a = nat loc_n \<Longrightarrow> MPI_Gather loc_n arrs = concat arrs"
  by (simp add: MPI_Gather_def map_idI)

lemma MPI_Gather_length:
  "\<forall>a \<in> set arrs. length a = nat loc_n \<Longrightarrow> length (MPI_Gather loc_n arrs) = length arrs * nat loc_n"
  by (simp add: MPI_Gather_eq concat_length_block)

lemma MPI_Gather_nth:
  assumes "\<forall>a \<in> set arrs. length a = nat loc_n" "0 \<le> r" "r < int (length arrs)" "0 \<le> j" "j < loc_n"
  shows "MPI_Gather loc_n arrs ! nat (r * loc_n + j) = arrs ! nat r ! nat j"
proof -
  have "nat (r * loc_n + j) = nat r * nat loc_n + nat j"
    using assms by (simp add: nat_add_distrib nat_mult_distrib)
  moreover have "concat arrs ! (nat r * nat loc_n + nat j) = arrs ! nat r ! nat j"
    using assms by (intro concat_nth_block) auto
  ultimately show ?thesis using assms(1) by (simp add: MPI_Gather_eq)
qed

lemma wf_group_nth:
  assumes "wf_group n loc_n ws" "r < length ws"
  shows "my_rank (ws ! r) = int r" and "wf_worker n loc_n (ws ! r)"
proof -
  from assms have m: "map my_rank ws = [0..int (length ws) - 1]"
    by (simp add: wf_group_def wf_ranks_def)
  have "my_rank (ws ! r) = map my_rank ws ! r" using assms(2) by simp
  also have "\<dots> = [0..int (length ws) - 1] ! r" by (simp only: m)
  also have "\<dots> = int r" using assms(2) by (simp add: nth_upto)
  finally show "my_rank (ws ! r) = int r" .
  from assms show "wf_worker n loc_n (ws ! r)"
    by (simp add: wf_group_def list_all_length)
qed

lemma wf_group_facts:
  assumes "wf_group n loc_n ws"
  shows "0 < loc_n" and "ws \<noteq> []" and "n = int (length ws) * loc_n"
  using assms by (simp_all add: wf_group_def wf_ranks_def)

lemma my_min_cand_spec:
  assumes "wf_worker n loc_n w"
  shows "\<exists>c. my_min loc_n w = Inr c \<and> cand_spec loc_n w c"
proof -
  from assms have len: "length (loc_dist w) = nat loc_n" "length (loc_known w) = nat loc_n"
    by (simp_all add: wf_worker_def wf_alloc_def)
  from my_min_spec [OF len] show ?thesis
    unfolding cand_spec_def by fastforce
qed

lemma cands_spec:
  assumes wf: "wf_group n loc_n ws"
  shows "\<exists>cs. collect (map (my_min loc_n) ws) = Inr cs \<and> length cs = length ws \<and>
           (\<forall>r < length ws. cand_spec loc_n (ws ! r) (cs ! r))"
proof -
  have "\<exists>y. my_min loc_n w = Inr y" if "w \<in> set ws" for w
  proof -
    from that wf have "wf_worker n loc_n w" by (auto simp: wf_group_def list_all_iff)
    from my_min_cand_spec [OF this] show ?thesis by blast
  qed
  then obtain cs where cs: "collect (map (my_min loc_n) ws) = Inr cs"
    using collect_map_total [of ws "my_min loc_n"] by blast
  from collect_map_nth [OF cs]
  have l: "length cs = length ws" and e: "\<forall>i<length ws. my_min loc_n (ws ! i) = Inr (cs ! i)"
    by blast+
  have "cand_spec loc_n (ws ! r) (cs ! r)" if "r < length ws" for r
  proof -
    from wf_group_nth(2) [OF wf that] my_min_cand_spec
    obtain c where "my_min loc_n (ws ! r) = Inr c" "cand_spec loc_n (ws ! r) c" by blast
    with e that show ?thesis by simp
  qed
  with cs l show ?thesis by blast
qed


lemma block_index_bound:
  assumes "0 \<le> (u::int)" "u < n" "0 \<le> j" "j < loc_n"
  shows "0 \<le> u * loc_n + j" and "u * loc_n + j < n * loc_n"
proof -
  from assms show "0 \<le> u * loc_n + j" by simp
  have "u * loc_n + j < u * loc_n + loc_n" using assms by simp
  also have "\<dots> = (u + 1) * loc_n" by (simp add: algebra_simps)
  also have "\<dots> \<le> n * loc_n" using assms by (intro mult_right_mono) auto
  finally show "u * loc_n + j < n * loc_n" .
qed

lemma relax_body_step:
  assumes wf: "wf_worker n loc_n w" and u: "0 \<le> glbl_u" "glbl_u < n" and v: "0 \<le> v" "v < loc_n"
  shows "relax_body loc_n glbl_u d v w =
     (if loc_known w ! nat v = 0 then
        (if INT_MIN \<le> d + loc_mat w ! nat (glbl_u * loc_n + v) \<and>
            d + loc_mat w ! nat (glbl_u * loc_n + v) \<le> INT_MAX
         then (if d + loc_mat w ! nat (glbl_u * loc_n + v) < loc_dist w ! nat v
               then Inr (w\<lparr>loc_dist := (loc_dist w)[nat v := d + loc_mat w ! nat (glbl_u * loc_n + v)],
                          loc_pred := (loc_pred w)[nat v := glbl_u]\<rparr>)
               else Inr w)
         else Inl Overflow)
      else Inr w)"
proof -
  from wf have len: "length (loc_mat w) = nat (n * loc_n)" "length (loc_dist w) = nat loc_n"
      "length (loc_pred w) = nat loc_n" "length (loc_known w) = nat loc_n"
    by (simp_all add: wf_worker_def wf_alloc_def)
  from block_index_bound [OF u v] have ix: "0 \<le> glbl_u * loc_n + v" "glbl_u * loc_n + v < n * loc_n" .
  have a: "rd (loc_known w) v = Inr (loc_known w ! nat v)" using v len by (simp add: rd_Inr)
  have b: "rd (loc_mat w) (glbl_u * loc_n + v) = Inr (loc_mat w ! nat (glbl_u * loc_n + v))"
    using ix len by (simp add: rd_Inr)
  have c: "rd (loc_dist w) v = Inr (loc_dist w ! nat v)" using v len by (simp add: rd_Inr)
  have d: "wr (loc_dist w) v x = Inr ((loc_dist w)[nat v := x])" for x using v len by (simp add: wr_Inr)
  have e: "wr (loc_pred w) v x = Inr ((loc_pred w)[nat v := x])" for x using v len by (simp add: wr_Inr)
  show ?thesis
    unfolding relax_body_def a b c d e by (simp add: c_add_def)
qed

lemma relax_loop_spec:
  assumes wf: "wf_worker n loc_n w" and u: "0 \<le> glbl_u" "glbl_u < n"
  shows "case for_loop 0 loc_n (relax_body loc_n glbl_u d) w of
           Inl e \<Rightarrow> e = Overflow \<and> sum_overflows loc_n glbl_u d w
         | Inr w' \<Rightarrow> relaxed loc_n glbl_u d w w'"
proof -
  let ?m = "\<lambda>j. d + loc_mat w ! nat (glbl_u * loc_n + j)"
  define R where "R = (\<lambda>(v::int) (t::worker) (j::int).
        (if j < v \<and> loc_known w ! nat j = 0 \<and> ?m j < loc_dist w ! nat j
         then loc_dist t ! nat j = ?m j \<and> loc_pred t ! nat j = glbl_u
         else loc_dist t ! nat j = loc_dist w ! nat j \<and> loc_pred t ! nat j = loc_pred w ! nat j))"
  define I where "I = (\<lambda>(v::int) w'.
     wf_worker n loc_n w' \<and>
     my_rank w' = my_rank w \<and> loc_mat w' = loc_mat w \<and> loc_known w' = loc_known w \<and>
     (\<forall>j. 0 \<le> j \<and> j < loc_n \<longrightarrow> R v w' j))"
  have init: "I 0 w" using wf by (simp add: I_def R_def)
  have step: "case relax_body loc_n glbl_u d v t of
                Inl e \<Rightarrow> e = Overflow \<and> sum_overflows loc_n glbl_u d w
              | Inr t' \<Rightarrow> I (v + 1) t'"
    if v: "0 \<le> v" "v < loc_n" and i: "I v t" for v t
  proof -
    from i have wt: "wf_worker n loc_n t" and eqs: "my_rank t = my_rank w" "loc_mat t = loc_mat w"
        "loc_known t = loc_known w"
      and rel: "\<And>j. 0 \<le> j \<and> j < loc_n \<Longrightarrow> R v t j"
      by (simp_all add: I_def)
    from rel [of v] v have tv: "loc_dist t ! nat v = loc_dist w ! nat v" by (simp add: R_def)
    from wt have len: "length (loc_dist t) = nat loc_n" "length (loc_pred t) = nat loc_n"
      by (simp_all add: wf_worker_def wf_alloc_def)
    note b = relax_body_step [OF wt u v, of d, unfolded eqs tv]
    have keep: "I (v + 1) t" if n: "\<not> (loc_known w ! nat v = 0 \<and> ?m v < loc_dist w ! nat v)"
    proof -
      have "R (v + 1) t j" if j: "0 \<le> j \<and> j < loc_n" for j
      proof (cases "j = v")
        case True
        with n rel [OF j] show ?thesis by (auto simp: R_def)
      next
        case False
        then have "j < v + 1 \<longleftrightarrow> j < v" by auto
        with rel [OF j] show ?thesis by (simp add: R_def)
      qed
      with wt eqs show ?thesis unfolding I_def by blast
    qed
    show ?thesis
    proof (cases "loc_known w ! nat v = 0")
      case False
      then have "relax_body loc_n glbl_u d v t = Inr t" by (simp add: b)
      moreover have "I (v + 1) t" using False by (intro keep) simp
      ultimately show ?thesis by simp
    next
      case k: True
      show ?thesis
      proof (cases "INT_MIN \<le> ?m v \<and> ?m v \<le> INT_MAX")
        case False
        then have "relax_body loc_n glbl_u d v t = Inl Overflow" using k by (simp add: b)
        moreover have "sum_overflows loc_n glbl_u d w"
          unfolding sum_overflows_def using v k False by blast
        ultimately show ?thesis by simp
      next
        case r: True
        show ?thesis
        proof (cases "?m v < loc_dist w ! nat v")
          case False
          then have "relax_body loc_n glbl_u d v t = Inr t" using k r by (simp add: b)
          moreover have "I (v + 1) t" using False by (intro keep) simp
          ultimately show ?thesis by simp
        next
          case lt: True
          let ?t' = "t\<lparr>loc_dist := (loc_dist t)[nat v := ?m v], loc_pred := (loc_pred t)[nat v := glbl_u]\<rparr>"
          have "relax_body loc_n glbl_u d v t = Inr ?t'" using k r lt by (simp add: b)
          moreover have "I (v + 1) ?t'"
          proof -
            have "wf_worker n loc_n ?t'" using wt by (simp add: wf_worker_def wf_alloc_def)
            moreover have "R (v + 1) ?t' j" if j: "0 \<le> j \<and> j < loc_n" for j
            proof (cases "j = v")
              case True
              with k lt v len show ?thesis by (simp add: R_def)
            next
              case False
              then have "nat j \<noteq> nat v" using j v by (simp add: nat_eq_iff)
              moreover have "j < v + 1 \<longleftrightarrow> j < v" using False by auto
              ultimately show ?thesis using rel [OF j] by (simp add: R_def)
            qed
            moreover have "my_rank ?t' = my_rank w" "loc_mat ?t' = loc_mat w" "loc_known ?t' = loc_known w"
              using eqs by simp_all
            ultimately show ?thesis unfolding I_def by blast
          qed
          ultimately show ?thesis by simp
        qed
      qed
    qed
  qed
  have "case for_loop 0 loc_n (relax_body loc_n glbl_u d) w of
          Inl e \<Rightarrow> e = Overflow \<and> sum_overflows loc_n glbl_u d w
        | Inr w' \<Rightarrow> I (max 0 loc_n) w'"
    by (rule for_loop_rule [where lo = 0 and I = I, OF init _ step]) simp_all
  moreover have "relaxed loc_n glbl_u d w w'" if i: "I (max 0 loc_n) w'" for w'
  proof -
    from i have wt: "wf_worker n loc_n w'" and eqs: "my_rank w' = my_rank w" "loc_mat w' = loc_mat w"
        "loc_known w' = loc_known w"
      and rel: "\<And>j. 0 \<le> j \<and> j < loc_n \<Longrightarrow> R (max 0 loc_n) w' j"
      by (simp_all add: I_def)
    have "(if loc_known w ! nat j = 0 \<and> ?m j < loc_dist w ! nat j
           then loc_dist w' ! nat j = ?m j \<and> loc_pred w' ! nat j = glbl_u
           else loc_dist w' ! nat j = loc_dist w ! nat j \<and> loc_pred w' ! nat j = loc_pred w ! nat j)"
      if j: "0 \<le> j \<and> j < loc_n" for j
    proof -
      from j have "j < max 0 loc_n" by simp
      with rel [OF j] show ?thesis by (simp add: R_def)
    qed
    moreover have "length (loc_dist w') = length (loc_dist w)" "length (loc_pred w') = length (loc_pred w)"
      using wt wf by (simp_all add: wf_worker_def wf_alloc_def)
    ultimately show ?thesis unfolding relaxed_def using eqs by blast
  qed
  ultimately show ?thesis by (auto split: sum.splits)
qed

lemma smod_nonneg: "0 \<le> (a::int) \<Longrightarrow> 0 < b \<Longrightarrow> a smod b = a mod b"
  by (simp add: signed_modulo_int_def sgn_if)

lemma after_reduce_break:
  "loc_n \<noteq> 0 \<Longrightarrow> after_reduce loc_n (d, - 1) w = Inr None"
  by (simp add: after_reduce_def c_mod_def INT_MIN_def)

lemma after_reduce_spec:
  assumes wf: "wf_worker n loc_n w" and pos: "0 < loc_n" and u: "0 \<le> glbl_u" "glbl_u < n"
  shows "case after_reduce loc_n (d, glbl_u) w of
           Inl e \<Rightarrow> e = Overflow \<and> sum_overflows loc_n glbl_u d (marked loc_n glbl_u w)
         | Inr None \<Rightarrow> False
         | Inr (Some w') \<Rightarrow> relaxed loc_n glbl_u d (marked loc_n glbl_u w) w'"
proof -
  have m: "c_mod glbl_u loc_n = Inr (glbl_u mod loc_n)"
    using pos u by (simp add: c_mod_def smod_nonneg)
  have "0 \<le> glbl_u mod loc_n" "glbl_u mod loc_n < loc_n" using pos by simp_all
  moreover from wf have "length (loc_known w) = nat loc_n" by (simp add: wf_worker_def)
  ultimately have k: "wr (loc_known w) (glbl_u mod loc_n) 1 = Inr ((loc_known w)[nat (glbl_u mod loc_n) := 1])"
    by (simp add: wr_Inr)
  have wm: "wf_worker n loc_n (marked loc_n glbl_u w)"
    using wf by (simp add: marked_def wf_worker_def wf_alloc_def)
  have ne: "glbl_u \<noteq> - 1" using u by simp
  have eq: "after_reduce loc_n (d, glbl_u) w =
        (case for_loop 0 loc_n (relax_body loc_n glbl_u d) (marked loc_n glbl_u w) of
           Inl e \<Rightarrow> Inl e | Inr w' \<Rightarrow> Inr (Some w'))"
    by (simp add: after_reduce_def m k ne marked_def)
  from relax_loop_spec [OF wm u, of d] show ?thesis
    unfolding eq by (auto split: sum.splits)
qed

lemma glbl_min_spec:
  assumes wf: "wf_group n loc_n ws"
  shows "\<exists>g. glbl_min_of loc_n ws = Inr (Some g) \<and> winner_spec loc_n ws g"
proof -
  from cands_spec [OF wf] obtain cs where cs: "collect (map (my_min loc_n) ws) = Inr cs"
    and l: "length cs = length ws" and sp: "\<And>r. r < length ws \<Longrightarrow> cand_spec loc_n (ws ! r) (cs ! r)"
    by blast
  from wf_group_facts [OF wf] l obtain c cs' where cc: "cs = c # cs'" by (cases cs) auto
  define g where "g = foldl MINLOC c cs'"
  have red: "glbl_min_of loc_n ws = Inr (Some g)" by (simp add: glbl_min_of_def cs cc g_def)
  from foldl_MINLOC_spec [of c cs'] have mem: "g \<in> set cs"
    and le: "\<And>x. x \<in> set cs \<Longrightarrow> fst g < fst x \<or> fst g = fst x \<and> snd g \<le> snd x"
    unfolding g_def cc by blast+
  from mem obtain r where r: "r < length ws" "g = cs ! r" using l by (auto simp: in_set_conv_nth)
  have rk: "my_rank (ws ! q) = int q" if "q < length ws" for q
    using wf_group_nth(1) [OF wf that] .
  have lower: "fst c' \<le> loc_dist (ws ! q) ! nat j"
    if "q < length ws" "cs ! q = c'" "0 \<le> j \<and> j < loc_n \<and> loc_known (ws ! q) ! nat j = 0" for q j c'
    using sp [OF that(1)] that(2,3) unfolding cand_spec_def by auto
  from sp [OF r(1)] r(2) have "cand_spec loc_n (ws ! r) g" by simp
  then consider
    (sentinel) "fst g = INFINITY" "snd g = - 1"
    | (vertex) u where "0 \<le> u" "u < loc_n" "snd g = u + my_rank (ws ! r) * loc_n"
        "loc_known (ws ! r) ! nat u = 0" "loc_dist (ws ! r) ! nat u = fst g" "fst g < INFINITY"
    unfolding cand_spec_def by blast
  then have "winner_spec loc_n ws g"
  proof cases
    case sentinel
    have "INFINITY \<le> loc_dist (ws ! q) ! nat j"
      if q: "q < length ws \<and> 0 \<le> j \<and> j < loc_n \<and> loc_known (ws ! q) ! nat j = 0" for q j
    proof -
      from q l have "cs ! q \<in> set cs" by simp
      from le [OF this] sentinel have "INFINITY \<le> fst (cs ! q)" by auto
      also have "\<dots> \<le> loc_dist (ws ! q) ! nat j" using lower [of q "cs ! q" j] q by simp
      finally show ?thesis .
    qed
    with sentinel show ?thesis unfolding winner_spec_def by blast
  next
    case vertex
    have "fst g < loc_dist (ws ! q) ! nat j \<or>
          fst g = loc_dist (ws ! q) ! nat j \<and> snd g \<le> j + int q * loc_n"
      if q: "q < length ws \<and> 0 \<le> j \<and> j < loc_n \<and> loc_known (ws ! q) ! nat j = 0" for q j
    proof -
      from q l have "cs ! q \<in> set cs" by simp
      from le [OF this] have lx: "fst g < fst (cs ! q) \<or> fst g = fst (cs ! q) \<and> snd g \<le> snd (cs ! q)" .
      from q have ql: "q < length ws" by simp
      from sp [OF ql] consider
        (s) "fst (cs ! q) = INFINITY"
        | (v) u' where "0 \<le> u'" "snd (cs ! q) = u' + my_rank (ws ! q) * loc_n"
            "fst (cs ! q) \<le> loc_dist (ws ! q) ! nat j \<and> (j < u' \<longrightarrow> fst (cs ! q) < loc_dist (ws ! q) ! nat j)"
        unfolding cand_spec_def using q by blast
      then show ?thesis
      proof cases
        case s
        with lower [of q "cs ! q" j] q vertex(6) show ?thesis by simp
      next
        case v
        show ?thesis
        proof (cases "fst g < loc_dist (ws ! q) ! nat j")
          case True then show ?thesis by simp
        next
          case False
          with lx v(3) have e: "fst g = fst (cs ! q)" "fst (cs ! q) = loc_dist (ws ! q) ! nat j"
            and s: "snd g \<le> snd (cs ! q)" by auto
          from e v(3) have "u' \<le> j" by auto
          with s v(2) rk [OF ql] have "snd g \<le> j + int q * loc_n" by simp
          with e show ?thesis by simp
        qed
      qed
    qed
    with vertex r(1) rk [OF r(1)] show ?thesis unfolding winner_spec_def by force
  qed
  with red show ?thesis by blast
qed

lemma winner_range:
  assumes wf: "wf_group n loc_n ws" and w: "winner_spec loc_n ws g"
  shows "snd g = - 1 \<or> 0 \<le> snd g \<and> snd g < n"
proof -
  from w consider "snd g = - 1"
    | r u where "r < length ws" "0 \<le> u" "u < loc_n" "snd g = u + int r * loc_n"
    unfolding winner_spec_def by blast
  then show ?thesis
  proof cases
    case 1 then show ?thesis by simp
  next
    case 2
    have "0 \<le> int r" "int r < int (length ws)" using 2(1) by simp_all
    from block_index_bound [OF this 2(2,3)] 2(4) wf_group_facts(3) [OF wf]
    show ?thesis by (simp add: add.commute)
  qed
qed

lemma Dijkstra_round_break:
  assumes wf: "wf_group n loc_n ws" and g: "glbl_min_of loc_n ws = Inr (Some g)" and b: "snd g = - 1"
  shows "Dijkstra_round loc_n ws = Inr None"
proof -
  from wf_group_facts [OF wf] have pos: "loc_n \<noteq> 0" and ne: "ws \<noteq> []" by simp_all
  have a: "after_reduce loc_n g w = Inr None" for w
    using after_reduce_break [OF pos, of "fst g" w] b by (cases g) simp
  have "map (after_reduce loc_n g) ws = map Inr (map (\<lambda>_. None) ws)" by (simp add: a)
  then have "collect (map (after_reduce loc_n g) ws) = Inr (map (\<lambda>_. None) ws)"
    by (simp only: collect_Inr_iff)
  moreover have "all_continue (map (\<lambda>_. None) ws) = (None :: worker list option)"
    using ne by (cases ws) simp_all
  ultimately show ?thesis by (simp add: Dijkstra_round_def g)
qed

lemma Dijkstra_round_spec:
  assumes wf: "wf_group n loc_n ws" and g: "glbl_min_of loc_n ws = Inr (Some g)"
    and u: "0 \<le> snd g" "snd g < n"
  shows "case Dijkstra_round loc_n ws of
           Inl e \<Rightarrow> e = Overflow \<and>
             (\<exists>r < length ws. sum_overflows loc_n (snd g) (fst g) (marked loc_n (snd g) (ws ! r)))
         | Inr None \<Rightarrow> False
         | Inr (Some ws') \<Rightarrow> round_spec loc_n g ws ws'"
proof -
  from wf_group_facts [OF wf] have pos: "0 < loc_n" by simp
  have sp: "case after_reduce loc_n g (ws ! r) of
           Inl e \<Rightarrow> e = Overflow \<and> sum_overflows loc_n (snd g) (fst g) (marked loc_n (snd g) (ws ! r))
         | Inr None \<Rightarrow> False
         | Inr (Some w') \<Rightarrow> relaxed loc_n (snd g) (fst g) (marked loc_n (snd g) (ws ! r)) w'"
    if "r < length ws" for r
    using after_reduce_spec [OF wf_group_nth(2) [OF wf that] pos u, of "fst g"] by simp
  have eq: "Dijkstra_round loc_n ws =
      (case collect (map (after_reduce loc_n g) ws) of Inl e \<Rightarrow> Inl e | Inr rs \<Rightarrow> Inr (all_continue rs))"
    by (simp add: Dijkstra_round_def g)
  show ?thesis
  proof (cases "collect (map (after_reduce loc_n g) ws)")
    case (Inl e)
    from collect_Inl [OF Inl] obtain r where r: "r < length ws" "after_reduce loc_n g (ws ! r) = Inl e"
      by (auto simp: in_set_conv_nth)
    with sp [OF r(1)] have "e = Overflow \<and> sum_overflows loc_n (snd g) (fst g) (marked loc_n (snd g) (ws ! r))"
      by simp
    with r(1) Inl show ?thesis unfolding eq by auto
  next
    case (Inr rs)
    from collect_map_nth [OF Inr]
    have l: "length rs = length ws" and e: "\<And>r. r < length ws \<Longrightarrow> after_reduce loc_n g (ws ! r) = Inr (rs ! r)"
      by blast+
    have some: "\<exists>w'. rs ! r = Some w' \<and> relaxed loc_n (snd g) (fst g) (marked loc_n (snd g) (ws ! r)) w'"
      if "r < length ws" for r
      using sp [OF that] e [OF that] by (cases "rs ! r") simp_all
    define vs where "vs = map the rs"
    have "rs = map Some vs"
    proof (rule nth_equalityI)
      show "length rs = length (map Some vs)" by (simp add: vs_def)
    next
      fix i assume "i < length rs"
      with l have il: "i < length ws" by simp
      from some [OF il] obtain w' where "rs ! i = Some w'" by blast
      with il l show "rs ! i = map Some vs ! i" by (simp add: vs_def)
    qed
    then have ac: "all_continue rs = Some vs" by (simp only: all_continue_Some_iff)
    have "relaxed loc_n (snd g) (fst g) (marked loc_n (snd g) (ws ! r)) (vs ! r)" if "r < length ws" for r
      using some [OF that] that l by (auto simp: vs_def)
    then have "round_spec loc_n g ws vs" unfolding round_spec_def using l by (simp add: vs_def)
    then show ?thesis unfolding eq by (simp add: Inr ac)
  qed
qed

lemma round_spec_wf:
  assumes wf: "wf_group n loc_n ws" and r: "round_spec loc_n g ws ws'"
  shows "wf_group n loc_n ws'"
proof -
  from r have l: "length ws' = length ws"
    and rel: "\<And>r. r < length ws \<Longrightarrow> relaxed loc_n (snd g) (fst g) (marked loc_n (snd g) (ws ! r)) (ws' ! r)"
    unfolding round_spec_def by blast+
  have "map my_rank ws' = map my_rank ws"
    using l rel by (auto simp: list_eq_iff_nth_eq relaxed_def marked_def)
  then have "wf_ranks n loc_n ws'" using wf l unfolding wf_group_def wf_ranks_def by auto
  moreover have "wf_worker n loc_n (ws' ! r)" if "r < length ws'" for r
  proof -
    from that l have rl: "r < length ws" by simp
    from wf_group_nth(2) [OF wf rl] rel [OF rl] show ?thesis
      unfolding wf_worker_def wf_alloc_def relaxed_def marked_def by simp
  qed
  ultimately show ?thesis unfolding wf_group_def by (simp add: list_all_length)
qed

lemma Dijkstra_loop_rule:
  assumes "P i ws"
    and step: "\<And>i ws. i < n - 1 \<Longrightarrow> P i ws \<Longrightarrow>
       (case Dijkstra_round loc_n ws of Inl e \<Rightarrow> E e | Inr None \<Rightarrow> Q ws | Inr (Some ws') \<Rightarrow> P (i + 1) ws')"
    and fin: "\<And>i ws. \<not> i < n - 1 \<Longrightarrow> P i ws \<Longrightarrow> Q ws"
  shows "case Dijkstra_loop loc_n n i ws of Inl e \<Rightarrow> E e | Inr ws' \<Rightarrow> Q ws'"
  using assms(1)
proof (induction "nat (n - 1 - i)" arbitrary: i ws)
  case 0
  then have "\<not> i < n - 1" by simp
  with fin [OF this "0.prems"] show ?case by (simp add: Dijkstra_loop.simps)
next
  case (Suc k)
  then have lt: "i < n - 1" by simp
  from Suc.hyps(2) have k: "k = nat (n - 1 - (i + 1))" by simp
  show ?case
  proof (cases "Dijkstra_round loc_n ws")
    case (Inl e)
    with step [OF lt Suc.prems] lt show ?thesis by (simp add: Dijkstra_loop.simps)
  next
    case (Inr o')
    show ?thesis
    proof (cases o')
      case None
      with Inr step [OF lt Suc.prems] lt show ?thesis by (simp add: Dijkstra_loop.simps)
    next
      case (Some ws')
      with Inr step [OF lt Suc.prems] have "P (i + 1) ws'" by simp
      from Suc.hyps(1) [OF k this] Inr Some lt show ?thesis
        by (simp add: Dijkstra_loop.simps [of loc_n n i])
    qed
  qed
qed

lemma global_nth:
  assumes wf: "wf_group n loc_n ws" and r: "r < length ws" and j: "0 \<le> j" "j < loc_n"
  shows "global_dist loc_n ws ! nat (j + int r * loc_n) = loc_dist (ws ! r) ! nat j"
    and "global_pred loc_n ws ! nat (j + int r * loc_n) = loc_pred (ws ! r) ! nat j"
    and "global_known loc_n ws ! nat (j + int r * loc_n) = loc_known (ws ! r) ! nat j"
proof -
  have all: "\<forall>w \<in> set ws. wf_worker n loc_n w" using wf by (simp add: wf_group_def list_all_iff)
  have c: "j + int r * loc_n = int r * loc_n + j" by simp
  have r': "0 \<le> int r" "int r < int (length (map f ws))" for f :: "worker \<Rightarrow> int list" using r by simp_all
  have "\<forall>a \<in> set (map loc_dist ws). length a = nat loc_n"
    using all by (auto simp: wf_worker_def wf_alloc_def)
  from MPI_Gather_nth [OF this r' j] r
  show "global_dist loc_n ws ! nat (j + int r * loc_n) = loc_dist (ws ! r) ! nat j"
    unfolding global_dist_def c by simp
  have "\<forall>a \<in> set (map loc_pred ws). length a = nat loc_n"
    using all by (auto simp: wf_worker_def wf_alloc_def)
  from MPI_Gather_nth [OF this r' j] r
  show "global_pred loc_n ws ! nat (j + int r * loc_n) = loc_pred (ws ! r) ! nat j"
    unfolding global_pred_def c by simp
  have "\<forall>a \<in> set (map loc_known ws). length a = nat loc_n"
    using all by (auto simp: wf_worker_def wf_alloc_def)
  from MPI_Gather_nth [OF this r' j] r
  show "global_known loc_n ws ! nat (j + int r * loc_n) = loc_known (ws ! r) ! nat j"
    unfolding global_known_def c by simp
qed

lemma global_length:
  assumes wf: "wf_group n loc_n ws"
  shows "int (length (global_dist loc_n ws)) = n"
    and "int (length (global_pred loc_n ws)) = n"
    and "int (length (global_known loc_n ws)) = n"
proof -
  have all: "\<forall>w \<in> set ws. wf_worker n loc_n w" using wf by (simp add: wf_group_def list_all_iff)
  from wf_group_facts [OF wf] have n: "n = int (length ws) * loc_n" and pos: "0 < loc_n" by simp_all
  have "\<forall>a \<in> set (map loc_dist ws). length a = nat loc_n"
    using all by (auto simp: wf_worker_def wf_alloc_def)
  from MPI_Gather_length [OF this] show "int (length (global_dist loc_n ws)) = n"
    using n pos by (simp add: global_dist_def)
  have "\<forall>a \<in> set (map loc_pred ws). length a = nat loc_n"
    using all by (auto simp: wf_worker_def wf_alloc_def)
  from MPI_Gather_length [OF this] show "int (length (global_pred loc_n ws)) = n"
    using n pos by (simp add: global_pred_def)
  have "\<forall>a \<in> set (map loc_known ws). length a = nat loc_n"
    using all by (auto simp: wf_worker_def wf_alloc_def)
  from MPI_Gather_length [OF this] show "int (length (global_known loc_n ws)) = n"
    using n pos by (simp add: global_known_def)
qed

lemma global_split:
  assumes wf: "wf_group n loc_n ws" and v: "0 \<le> v" "v < n"
  obtains r j where "r < length ws" "0 \<le> j" "j < loc_n" "v = j + int r * loc_n"
proof -
  from wf_group_facts [OF wf] have n: "n = int (length ws) * loc_n" and pos: "0 < loc_n" by simp_all
  let ?r = "nat (v div loc_n)" and ?j = "v mod loc_n"
  have d: "0 \<le> v div loc_n" using v pos by (simp add: pos_imp_zdiv_nonneg_iff)
  have "v div loc_n < int (length ws)"
  proof (rule ccontr)
    assume "\<not> v div loc_n < int (length ws)"
    then have "int (length ws) * loc_n \<le> (v div loc_n) * loc_n"
      using pos by (intro mult_right_mono) auto
    also have "\<dots> = v - v mod loc_n" by (simp add: minus_mod_eq_div_mult)
    also have "\<dots> \<le> v" using pos by simp
    finally show False using v n by simp
  qed
  with d have "?r < length ws" by simp
  moreover have "0 \<le> ?j" "?j < loc_n" using pos by simp_all
  moreover have "v = ?j + int ?r * loc_n" using d by simp
  ultimately show ?thesis by (rule that)
qed

lemma marked_known_owner:
  assumes wf: "wf_group n loc_n ws" and r: "r < length ws" and u: "0 \<le> u" "u < loc_n"
  shows "loc_known (marked loc_n (u + int r * loc_n) (ws ! r)) ! nat u = 1"
proof -
  from wf_group_nth(2) [OF wf r] have "length (loc_known (ws ! r)) = nat loc_n"
    by (simp add: wf_worker_def)
  moreover have "(u + int r * loc_n) mod loc_n = u" using u by simp
  ultimately show ?thesis using u by (simp add: marked_def)
qed

lemma Init_known_loop_spec:
  assumes len: "length k0 = nat loc_n"
  shows "\<exists>k. for_loop 1 loc_n Init_known_body k0 = Inr k \<and> length k = nat loc_n \<and>
             k ! 0 = k0 ! 0 \<and> (\<forall>j. 1 \<le> j \<and> j < loc_n \<longrightarrow> k ! nat j = 0)"
proof -
  define I where "I = (\<lambda>(v::int) (k::int list). length k = nat loc_n \<and> k ! 0 = k0 ! 0 \<and>
      (\<forall>j. 1 \<le> j \<and> j < v \<longrightarrow> k ! nat j = 0))"
  have init: "I 1 k0" using len by (simp add: I_def)
  have step: "case Init_known_body v k of Inl e \<Rightarrow> False | Inr k' \<Rightarrow> I (v + 1) k'"
    if v: "1 \<le> v" "v < loc_n" and i: "I v k" for v k
  proof -
    from i have l: "length k = nat loc_n" and z: "k ! 0 = k0 ! 0"
      and r: "\<And>j. 1 \<le> j \<and> j < v \<Longrightarrow> k ! nat j = 0" by (simp_all add: I_def)
    have b: "Init_known_body v k = Inr (k[nat v := 0])"
      using v l by (simp add: Init_known_body_def wr_Inr)
    have "k[nat v := 0] ! nat j = 0" if j: "1 \<le> j \<and> j < v + 1" for j
    proof (cases "j = v")
      case True with v l show ?thesis by simp
    next
      case False
      with j have "j < v" by simp
      moreover have "nat j \<noteq> nat v" using False j v by (simp add: nat_eq_iff)
      ultimately show ?thesis using r [of j] j by simp
    qed
    moreover have "k[nat v := 0] ! 0 = k0 ! 0" using z v by simp
    ultimately have "I (v + 1) (k[nat v := 0])" using l unfolding I_def by simp
    with b show ?thesis by simp
  qed
  have "case for_loop 1 loc_n Init_known_body k0 of Inl e \<Rightarrow> False | Inr k \<Rightarrow> I (max 1 loc_n) k"
    by (rule for_loop_rule [where lo = 1 and I = I, OF init _ step]) simp_all
  then obtain k where k: "for_loop 1 loc_n Init_known_body k0 = Inr k" "I (max 1 loc_n) k"
    by (auto split: sum.splits)
  from k(2) have "length k = nat loc_n \<and> k ! 0 = k0 ! 0 \<and> (\<forall>j. 1 \<le> j \<and> j < loc_n \<longrightarrow> k ! nat j = 0)"
    unfolding I_def by (auto simp: max_def)
  with k(1) show ?thesis by blast
qed

lemma Init_dist_loop_spec:
  assumes wf: "wf_worker n loc_n w" and n: "1 \<le> n" and pos: "0 < loc_n"
  shows "\<exists>w'. for_loop 0 loc_n (Init_dist_body loc_n) w = Inr w' \<and>
            my_rank w' = my_rank w \<and> loc_mat w' = loc_mat w \<and> loc_known w' = loc_known w \<and>
            length (loc_dist w') = nat loc_n \<and> length (loc_pred w') = nat loc_n \<and>
            (\<forall>j. 0 \<le> j \<and> j < loc_n \<longrightarrow>
                loc_dist w' ! nat j = loc_mat w ! nat j \<and> loc_pred w' ! nat j = 0)"
proof -
  define I where "I = (\<lambda>(v::int) (w'::worker).
            my_rank w' = my_rank w \<and> loc_mat w' = loc_mat w \<and> loc_known w' = loc_known w \<and>
            length (loc_dist w') = nat loc_n \<and> length (loc_pred w') = nat loc_n \<and>
            (\<forall>j. 0 \<le> j \<and> j < v \<longrightarrow>
                loc_dist w' ! nat j = loc_mat w ! nat j \<and> loc_pred w' ! nat j = 0))"
  from wf have len: "length (loc_mat w) = nat (n * loc_n)" "length (loc_dist w) = nat loc_n"
      "length (loc_pred w) = nat loc_n"
    by (simp_all add: wf_worker_def wf_alloc_def)
  have big: "loc_n \<le> n * loc_n" using n pos by (simp add: mult_le_cancel_right1)
  have init: "I 0 w" using len by (simp add: I_def)
  have step: "case Init_dist_body loc_n v t of Inl e \<Rightarrow> False | Inr t' \<Rightarrow> I (v + 1) t'"
    if v: "0 \<le> v" "v < loc_n" and i: "I v t" for v t
  proof -
    from i have eqs: "my_rank t = my_rank w" "loc_mat t = loc_mat w" "loc_known t = loc_known w"
      and l: "length (loc_dist t) = nat loc_n" "length (loc_pred t) = nat loc_n"
      and r: "\<And>j. 0 \<le> j \<and> j < v \<Longrightarrow> loc_dist t ! nat j = loc_mat w ! nat j \<and> loc_pred t ! nat j = 0"
      by (simp_all add: I_def)
    let ?t' = "t\<lparr>loc_dist := (loc_dist t)[nat v := loc_mat w ! nat v], loc_pred := (loc_pred t)[nat v := 0]\<rparr>"
    have "v < n * loc_n" using v(2) big by (rule less_le_trans)
    then have a: "rd (loc_mat t) (0 * loc_n + v) = Inr (loc_mat w ! nat v)"
      using v len eqs by (simp add: rd_Inr)
    have b: "Init_dist_body loc_n v t = Inr ?t'"
      unfolding Init_dist_body_def a using v l by (simp add: wr_Inr)
    have "loc_dist ?t' ! nat j = loc_mat w ! nat j \<and> loc_pred ?t' ! nat j = 0"
      if j: "0 \<le> j \<and> j < v + 1" for j
    proof (cases "j = v")
      case True with v l show ?thesis by simp
    next
      case False
      with j have "j < v" by simp
      moreover have "nat j \<noteq> nat v" using False j v by (simp add: nat_eq_iff)
      ultimately show ?thesis using r [of j] j by simp
    qed
    then have "I (v + 1) ?t'" unfolding I_def using eqs l by simp
    with b show ?thesis by simp
  qed
  have "case for_loop 0 loc_n (Init_dist_body loc_n) w of Inl e \<Rightarrow> False | Inr w' \<Rightarrow> I (max 0 loc_n) w'"
    by (rule for_loop_rule [where lo = 0 and I = I, OF init _ step]) simp_all
  then obtain w' where w': "for_loop 0 loc_n (Init_dist_body loc_n) w = Inr w'" "I (max 0 loc_n) w'"
    by (auto split: sum.splits)
  have "max 0 loc_n = loc_n" using pos by simp
  with w'(2) have "I loc_n w'" by simp
  with w'(1) show ?thesis unfolding I_def by blast
qed

lemma Dijkstra_Init_contents:
  assumes wf: "wf_alloc n loc_n w" and n: "1 \<le> n" and pos: "0 < loc_n"
    and kl0: "length k_init = nat loc_n"
  shows "\<exists>w'. Dijkstra_Init loc_n (w\<lparr>loc_known := k_init\<rparr>) = Inr w' \<and> initialised loc_n w w'"
proof -
  let ?w0 = "w\<lparr>loc_known := k_init\<rparr>"
  let ?b = "if my_rank w = 0 then 1 else 0 :: int"
  let ?k0 = "k_init[0 := ?b]"
  have a: "wr (loc_known ?w0) 0 (if my_rank ?w0 = 0 then 1 else 0) = Inr ?k0"
    using pos kl0 by (simp add: wr_Inr)
  have "length ?k0 = nat loc_n" using kl0 by simp
  from Init_known_loop_spec [OF this] obtain k where
    k: "for_loop 1 loc_n Init_known_body ?k0 = Inr k" and kl: "length k = nat loc_n"
    and k0: "k ! 0 = ?k0 ! 0" and kj: "\<And>j. 1 \<le> j \<and> j < loc_n \<Longrightarrow> k ! nat j = 0"
    by blast
  have ww: "wf_worker n loc_n (?w0\<lparr>loc_known := k\<rparr>)"
    using wf kl by (simp add: wf_worker_def wf_alloc_def)
  from Init_dist_loop_spec [OF ww n pos] obtain w' where
    w': "for_loop 0 loc_n (Init_dist_body loc_n) (?w0\<lparr>loc_known := k\<rparr>) = Inr w'"
    and eqs: "my_rank w' = my_rank w" "loc_mat w' = loc_mat w" "loc_known w' = k"
    and l: "length (loc_dist w') = nat loc_n" "length (loc_pred w') = nat loc_n"
    and dp: "\<And>j. 0 \<le> j \<and> j < loc_n \<Longrightarrow> loc_dist w' ! nat j = loc_mat w ! nat j \<and> loc_pred w' ! nat j = 0"
    by auto
  have r: "Dijkstra_Init loc_n ?w0 = Inr w'"
    unfolding Dijkstra_Init_def a using k w' by simp
  have kn: "k ! nat j = (if my_rank w = 0 \<and> j = 0 then 1 else 0)" if j: "0 \<le> j \<and> j < loc_n" for j
  proof (cases "j = 0")
    case True
    with k0 pos kl0 show ?thesis by simp
  next
    case False
    with j kj [of j] show ?thesis by simp
  qed
  have "initialised loc_n w w'"
    unfolding initialised_def using eqs l kl dp kn by simp
  with r show ?thesis by blast
qed

lemma Dijkstra_Init_spec:
  assumes wf: "wf_alloc n loc_n w" and n: "1 \<le> n" and pos: "0 < loc_n"
  shows "\<exists>w'. Dijkstra_Init loc_n (w\<lparr>loc_known := replicate (nat loc_n) 0\<rparr>) = Inr w' \<and>
              initialised loc_n w w'"
  using Dijkstra_Init_contents [OF wf n pos] by simp

lemma list_eq_int_nth:
  assumes "length xs = nat m" "length ys = nat m"
    and "\<And>j. 0 \<le> j \<Longrightarrow> j < m \<Longrightarrow> xs ! nat j = ys ! nat j"
  shows "xs = (ys :: int list)"
proof (rule nth_equalityI)
  show "length xs = length ys" using assms(1,2) by simp
next
  fix i assume "i < length xs"
  with assms(1) have "0 \<le> int i" "int i < m" by simp_all
  from assms(3) [OF this] show "xs ! i = ys ! i" by simp
qed

lemma initialised_unique:
  assumes a: "initialised loc_n w wa" and b: "initialised loc_n v wb"
    and e: "my_rank v = my_rank w" "loc_mat v = loc_mat w"
  shows "wa = wb"
proof -
  have "loc_dist wa = loc_dist wb"
    using a b e unfolding initialised_def by (intro list_eq_int_nth [of _ loc_n]) auto
  moreover have "loc_pred wa = loc_pred wb"
    using a b e unfolding initialised_def by (intro list_eq_int_nth [of _ loc_n]) auto
  moreover have "loc_known wa = loc_known wb"
    using a b e unfolding initialised_def by (intro list_eq_int_nth [of _ loc_n]) auto
  moreover have "my_rank wa = my_rank wb" "loc_mat wa = loc_mat wb"
    using a b e unfolding initialised_def by simp_all
  ultimately show ?thesis by simp
qed

lemma Dijkstra_Init_fresh_blocks:
  assumes wf: "wf_alloc n loc_n w" and n: "1 \<le> n" and pos: "0 < loc_n"
    and len: "length d = nat loc_n" "length q = nat loc_n" "length k = nat loc_n"
  shows "Dijkstra_Init loc_n (w\<lparr>loc_dist := d, loc_pred := q, loc_known := k\<rparr>) =
         Dijkstra_Init loc_n (w\<lparr>loc_known := replicate (nat loc_n) 0\<rparr>)"
proof -
  let ?v = "w\<lparr>loc_dist := d, loc_pred := q\<rparr>"
  have wv: "wf_alloc n loc_n ?v" using wf len by (simp add: wf_alloc_def)
  from Dijkstra_Init_contents [OF wv n pos len(3)] obtain wa where
    1: "Dijkstra_Init loc_n (?v\<lparr>loc_known := k\<rparr>) = Inr wa" "initialised loc_n ?v wa" by blast
  have "length (replicate (nat loc_n) (0::int)) = nat loc_n" by simp
  from Dijkstra_Init_contents [OF wf n pos this] obtain wb where
    2: "Dijkstra_Init loc_n (w\<lparr>loc_known := replicate (nat loc_n) 0\<rparr>) = Inr wb"
      "initialised loc_n w wb" by blast
  from initialised_unique [OF 2(2) 1(2)] have "wb = wa" by simp
  with 1(1) 2(1) show ?thesis by simp
qed

lemma wf_start_nth:
  assumes "wf_start n loc_n ws" "r < length ws"
  shows "wf_alloc n loc_n (ws ! r)"
  using assms by (simp add: wf_start_def list_all_length)

lemma wf_start_facts:
  assumes "wf_start n loc_n ws"
  shows "0 < loc_n" and "ws \<noteq> []" and "n = int (length ws) * loc_n" and "1 \<le> n"
    and "wf_ranks n loc_n ws"
proof -
  from assms show a: "0 < loc_n" and b: "ws \<noteq> []" and c: "n = int (length ws) * loc_n"
    and "wf_ranks n loc_n ws"
    by (simp_all add: wf_start_def wf_ranks_def)
  from b have "1 \<le> int (length ws)" by (cases ws) simp_all
  with a have "1 * 1 \<le> int (length ws) * loc_n" by (intro mult_mono) auto
  with c show "1 \<le> n" by simp
qed

lemma Init_group_spec:
  assumes wf: "wf_start n loc_n ws"
  shows "\<exists>ws0. collect (map (\<lambda>w. Dijkstra_Init loc_n (w\<lparr>loc_known := replicate (nat loc_n) 0\<rparr>)) ws) = Inr ws0 \<and>
           length ws0 = length ws \<and> (\<forall>r < length ws. initialised loc_n (ws ! r) (ws0 ! r)) \<and>
           wf_group n loc_n ws0"
proof -
  let ?f = "\<lambda>w. Dijkstra_Init loc_n (w\<lparr>loc_known := replicate (nat loc_n) 0\<rparr>)"
  note f = wf_start_facts [OF wf]
  have ini: "\<exists>w'. ?f (ws ! r) = Inr w' \<and> initialised loc_n (ws ! r) w'" if "r < length ws" for r
    using Dijkstra_Init_spec [OF wf_start_nth [OF wf that] f(4) f(1)] .
  have "\<exists>y. ?f w = Inr y" if "w \<in> set ws" for w
    using that ini by (auto simp: in_set_conv_nth)
  then obtain ws0 where c: "collect (map ?f ws) = Inr ws0"
    using collect_map_total [of ws ?f] by blast
  from collect_map_nth [OF c] have l: "length ws0 = length ws"
    and e: "\<And>r. r < length ws \<Longrightarrow> ?f (ws ! r) = Inr (ws0 ! r)" by blast+
  have i: "initialised loc_n (ws ! r) (ws0 ! r)" if "r < length ws" for r
    using ini [OF that] e [OF that] by auto
  have "map my_rank ws0 = map my_rank ws"
    using l i by (auto simp: list_eq_iff_nth_eq initialised_def)
  with f(5) l have "wf_ranks n loc_n ws0" unfolding wf_ranks_def by auto
  moreover have "wf_worker n loc_n (ws0 ! r)" if "r < length ws0" for r
  proof -
    from that l have rl: "r < length ws" by simp
    from i [OF rl] wf_start_nth [OF wf rl] show ?thesis
      by (simp add: initialised_def wf_worker_def wf_alloc_def)
  qed
  ultimately have "wf_group n loc_n ws0" by (simp add: wf_group_def list_all_length)
  with c l i show ?thesis by blast
qed

lemma round_cases:
  assumes wf: "wf_group n loc_n ws"
  obtains (break) g where "glbl_min_of loc_n ws = Inr (Some g)" "winner_spec loc_n ws g"
      "snd g = - 1" "Dijkstra_round loc_n ws = Inr None"
  | (overflow) g r where "glbl_min_of loc_n ws = Inr (Some g)" "winner_spec loc_n ws g"
      "0 \<le> snd g" "snd g < n" "Dijkstra_round loc_n ws = Inl Overflow" "r < length ws"
      "sum_overflows loc_n (snd g) (fst g) (marked loc_n (snd g) (ws ! r))"
  | (continue) g ws' where "glbl_min_of loc_n ws = Inr (Some g)" "winner_spec loc_n ws g"
      "0 \<le> snd g" "snd g < n" "Dijkstra_round loc_n ws = Inr (Some ws')"
      "round_spec loc_n g ws ws'" "wf_group n loc_n ws'"
proof -
  from glbl_min_spec [OF wf] obtain g where g: "glbl_min_of loc_n ws = Inr (Some g)"
    and w: "winner_spec loc_n ws g" by blast
  show ?thesis
  proof (cases "snd g = - 1")
    case True
    from Dijkstra_round_break [OF wf g True] g w True show ?thesis by (rule break [rotated 3])
  next
    case False
    with winner_range [OF wf w] have rng: "0 \<le> snd g" "snd g < n" by simp_all
    note sp = Dijkstra_round_spec [OF wf g rng]
    show ?thesis
    proof (cases "Dijkstra_round loc_n ws")
      case (Inl e)
      with sp obtain r where "e = Overflow" "r < length ws"
        "sum_overflows loc_n (snd g) (fst g) (marked loc_n (snd g) (ws ! r))" by auto
      with Inl g w rng show ?thesis by (intro overflow [of g r]) simp_all
    next
      case (Inr res)
      with sp obtain ws' where res: "res = Some ws'" and rs: "round_spec loc_n g ws ws'"
        by (cases res) simp_all
      from round_spec_wf [OF wf rs] Inr res g w rng rs show ?thesis
        by (intro continue [of g ws']) simp_all
    qed
  qed
qed

lemma marked_known:
  "loc_known w ! nat j \<noteq> 0 \<Longrightarrow> loc_known (marked loc_n u w) ! nat j \<noteq> 0"
  by (cases "nat (u mod loc_n) < length (loc_known w)")
     (simp_all add: marked_def nth_list_update list_update_beyond)

lemma relaxed_no_increase:
  assumes rel: "relaxed loc_n u d (marked loc_n u w) w'" and j: "0 \<le> j" "j < loc_n"
  shows "no_increase w w' j"
proof -
  let ?m = "marked loc_n u w"
  have md: "loc_dist ?m = loc_dist w" by (simp add: marked_def)
  from rel have k: "loc_known w' = loc_known ?m" by (simp add: relaxed_def)
  from rel j have c: "if loc_known ?m ! nat j = 0 \<and> d + loc_mat ?m ! nat (u * loc_n + j) < loc_dist ?m ! nat j
       then loc_dist w' ! nat j = d + loc_mat ?m ! nat (u * loc_n + j) \<and> loc_pred w' ! nat j = u
       else loc_dist w' ! nat j = loc_dist ?m ! nat j \<and> loc_pred w' ! nat j = loc_pred ?m ! nat j"
    unfolding relaxed_def by blast
  have le: "loc_dist w' ! nat j \<le> loc_dist w ! nat j"
    using c md by (auto split: if_splits)
  have "loc_known w' ! nat j \<noteq> 0 \<and> loc_dist w' ! nat j = loc_dist w ! nat j"
    if kn: "loc_known w ! nat j \<noteq> 0"
  proof -
    from marked_known [OF kn] have "loc_known ?m ! nat j \<noteq> 0" .
    with c k md show ?thesis by simp
  qed
  with le show ?thesis unfolding no_increase_def by blast
qed

lemma no_increase_trans:
  "no_increase w w' j \<Longrightarrow> no_increase w' w'' j \<Longrightarrow> no_increase w w'' j"
  unfolding no_increase_def by auto

lemma round_no_increase:
  assumes wf: "wf_group n loc_n ws" and rs: "Dijkstra_round loc_n ws = Inr (Some ws')"
    and r: "r < length ws" and j: "0 \<le> j" "j < loc_n"
  shows "no_increase (ws ! r) (ws' ! r) j" and "wf_group n loc_n ws'" and "length ws' = length ws"
proof -
  from wf have "no_increase (ws ! r) (ws' ! r) j \<and> wf_group n loc_n ws' \<and> length ws' = length ws"
  proof (cases rule: round_cases)
    case (break g) with rs show ?thesis by simp
  next
    case (overflow g q) with rs show ?thesis by simp
  next
    case (continue g ws'')
    with rs have e: "ws'' = ws'" by simp
    from continue(6) r have "relaxed loc_n (snd g) (fst g) (marked loc_n (snd g) (ws ! r)) (ws' ! r)"
      and "length ws' = length ws"
      unfolding round_spec_def e by simp_all
    with relaxed_no_increase [OF _ j] continue(7) e show ?thesis by simp
  qed
  then show "no_increase (ws ! r) (ws' ! r) j" and "wf_group n loc_n ws'" and "length ws' = length ws"
    by blast+
qed

lemma loop_no_increase:
  assumes wf: "wf_group n loc_n ws" and rs: "Dijkstra_loop loc_n n i ws = Inr ws'"
    and r: "r < length ws" and j: "0 \<le> j" "j < loc_n"
  shows "no_increase (ws ! r) (ws' ! r) j"
proof -
  define P where "P = (\<lambda>(i::int) ws1. wf_group n loc_n ws1 \<and> length ws1 = length ws \<and>
      no_increase (ws ! r) (ws1 ! r) j)"
  have init: "P i ws" using wf by (simp add: P_def no_increase_def)
  have step: "case Dijkstra_round loc_n ws1 of Inl e \<Rightarrow> True | Inr None \<Rightarrow> P 0 ws1
        | Inr (Some ws2) \<Rightarrow> P (i + 1) ws2" if "P i ws1" for i ws1
  proof (cases "Dijkstra_round loc_n ws1")
    case (Inl e) then show ?thesis by simp
  next
    case (Inr res)
    show ?thesis
    proof (cases res)
      case None with Inr that show ?thesis by (simp add: P_def)
    next
      case (Some ws2)
      from that have w1: "wf_group n loc_n ws1" and l1: "length ws1 = length ws"
        and n1: "no_increase (ws ! r) (ws1 ! r) j" by (simp_all add: P_def)
      from r l1 have r1: "r < length ws1" by simp
      from Inr Some have rr: "Dijkstra_round loc_n ws1 = Inr (Some ws2)" by simp
      from round_no_increase [OF w1 rr r1 j] no_increase_trans [OF n1] l1
      have "P (i + 1) ws2" by (simp add: P_def)
      with Inr Some show ?thesis by simp
    qed
  qed
  have "case Dijkstra_loop loc_n n i ws of Inl e \<Rightarrow> True | Inr ws' \<Rightarrow> P 0 ws'"
    by (rule Dijkstra_loop_rule [where P = P, OF init]) (use step in \<open>auto simp: P_def\<close>)
  with rs show ?thesis by (simp add: P_def)
qed

lemma in_range_nth:
  "in_range xs \<Longrightarrow> 0 \<le> j \<Longrightarrow> j < int (length xs) \<Longrightarrow> 0 \<le> xs ! nat j \<and> xs ! nat j \<le> INFINITY"
  by (simp add: in_range_def list_all_length)

lemma in_rangeI:
  assumes "\<And>j. 0 \<le> j \<Longrightarrow> j < int (length xs) \<Longrightarrow> 0 \<le> xs ! nat j \<and> xs ! nat j \<le> INFINITY"
  shows "in_range xs"
  unfolding in_range_def list_all_length
proof (intro allI impI)
  fix i assume "i < length xs"
  with assms [of "int i"] show "0 \<le> xs ! i \<and> xs ! i \<le> INFINITY" by simp
qed

lemma weights_ok_nth: "weights_ok ws \<Longrightarrow> r < length ws \<Longrightarrow> in_range (loc_mat (ws ! r))"
  by (simp add: weights_ok_def list_all_length)

lemma dists_ok_nth: "dists_ok ws \<Longrightarrow> r < length ws \<Longrightarrow> in_range (loc_dist (ws ! r))"
  by (simp add: dists_ok_def list_all_length)

lemma winner_value_range:
  assumes wf: "wf_group n loc_n ws" and d: "dists_ok ws" and w: "winner_spec loc_n ws g"
    and ne: "snd g \<noteq> - 1"
  shows "0 \<le> fst g" and "fst g < INFINITY"
proof -
  from w ne obtain r u where r: "r < length ws" and u: "0 \<le> u" "u < loc_n"
    and e: "loc_dist (ws ! r) ! nat u = fst g" and lt: "fst g < INFINITY"
    unfolding winner_spec_def by auto
  from wf_group_nth(2) [OF wf r] have "length (loc_dist (ws ! r)) = nat loc_n"
    by (simp add: wf_worker_def wf_alloc_def)
  with in_range_nth [OF dists_ok_nth [OF d r] u(1)] u e show "0 \<le> fst g" by simp
  from lt show "fst g < INFINITY" .
qed

lemma sum_in_range:
  assumes "0 \<le> d" "d < INFINITY" "0 \<le> x" "x \<le> INFINITY"
  shows "0 \<le> d + x" and "d + x \<le> 2000000" and "c_add d x = Inr (d + x)"
  using assms by (simp_all add: c_add_def INFINITY_def INT_MIN_def INT_MAX_def)

lemma no_sum_overflow:
  assumes ww: "wf_worker n loc_n w" and ir: "in_range (loc_mat w)"
    and u: "0 \<le> u" "u < n" and d: "0 \<le> d" "d < INFINITY"
  shows "\<not> sum_overflows loc_n u d (marked loc_n u w)"
proof
  assume "sum_overflows loc_n u d (marked loc_n u w)"
  then obtain j where j: "0 \<le> j" "j < loc_n"
    and o: "\<not> (INT_MIN \<le> d + loc_mat w ! nat (u * loc_n + j) \<and> d + loc_mat w ! nat (u * loc_n + j) \<le> INT_MAX)"
    unfolding sum_overflows_def marked_def by auto
  from ww have "length (loc_mat w) = nat (n * loc_n)" by (simp add: wf_worker_def wf_alloc_def)
  with block_index_bound [OF u j] have "0 \<le> u * loc_n + j" "u * loc_n + j < int (length (loc_mat w))"
    by simp_all
  from in_range_nth [OF ir this] have "0 \<le> loc_mat w ! nat (u * loc_n + j)"
    "loc_mat w ! nat (u * loc_n + j) \<le> INFINITY" by simp_all
  from sum_in_range(1,2) [OF d this] o show False by (simp add: INT_MIN_def INT_MAX_def)
qed

lemma relaxed_in_range:
  assumes ww: "wf_worker n loc_n w" and im: "in_range (loc_mat w)" and idist: "in_range (loc_dist w)"
    and u: "0 \<le> u" "u < n" and d: "0 \<le> d"
    and rel: "relaxed loc_n u d (marked loc_n u w) w'"
  shows "in_range (loc_dist w')" and "in_range (loc_mat w')"
proof -
  let ?m = "marked loc_n u w"
  from ww have len: "length (loc_mat w) = nat (n * loc_n)" "length (loc_dist w) = nat loc_n"
    by (simp_all add: wf_worker_def wf_alloc_def)
  from rel have l': "length (loc_dist w') = nat loc_n" and m': "loc_mat w' = loc_mat w"
    using len by (simp_all add: relaxed_def marked_def)
  from m' im show "in_range (loc_mat w')" by simp
  show "in_range (loc_dist w')"
  proof (rule in_rangeI)
    fix j assume j: "0 \<le> j" "j < int (length (loc_dist w'))"
    then have jl: "j < loc_n" using l' by (simp split: if_splits)
    from in_range_nth [OF idist j(1)] jl len
    have old: "0 \<le> loc_dist w ! nat j" "loc_dist w ! nat j \<le> INFINITY" by simp_all
    from block_index_bound [OF u j(1) jl] len
    have "0 \<le> u * loc_n + j" "u * loc_n + j < int (length (loc_mat w))" by simp_all
    from in_range_nth [OF im this] have wt: "0 \<le> loc_mat w ! nat (u * loc_n + j)" by simp
    from rel j(1) jl
    have "if loc_known ?m ! nat j = 0 \<and> d + loc_mat ?m ! nat (u * loc_n + j) < loc_dist ?m ! nat j
       then loc_dist w' ! nat j = d + loc_mat ?m ! nat (u * loc_n + j) \<and> loc_pred w' ! nat j = u
       else loc_dist w' ! nat j = loc_dist ?m ! nat j \<and> loc_pred w' ! nat j = loc_pred ?m ! nat j"
      unfolding relaxed_def by blast
    then have "loc_dist w' ! nat j = loc_dist w ! nat j \<or>
       loc_dist w' ! nat j = d + loc_mat w ! nat (u * loc_n + j) \<and>
       d + loc_mat w ! nat (u * loc_n + j) < loc_dist w ! nat j"
      by (auto simp: marked_def split: if_splits)
    with old wt d show "0 \<le> loc_dist w' ! nat j \<and> loc_dist w' ! nat j \<le> INFINITY" by auto
  qed
qed

lemma round_in_range:
  assumes wf: "wf_group n loc_n ws" and wo: "weights_ok ws" and dk: "dists_ok ws"
  shows "\<exists>g res. glbl_min_of loc_n ws = Inr (Some g) \<and> Dijkstra_round loc_n ws = Inr res \<and>
           (snd g \<noteq> - 1 \<longrightarrow> 0 \<le> fst g \<and> fst g < INFINITY \<and>
              (\<forall>w \<in> set ws. \<forall>x \<in> set (loc_mat w).
                  0 \<le> fst g + x \<and> fst g + x \<le> 2000000 \<and> c_add (fst g) x = Inr (fst g + x))) \<and>
           (\<forall>ws'. res = Some ws' \<longrightarrow> wf_group n loc_n ws' \<and> weights_ok ws' \<and> dists_ok ws')"
proof -
  have sums: "\<forall>w \<in> set ws. \<forall>x \<in> set (loc_mat w).
                  0 \<le> fst g + x \<and> fst g + x \<le> 2000000 \<and> c_add (fst g) x = Inr (fst g + x)"
    if d: "0 \<le> fst g" "fst g < INFINITY" for g
  proof (intro ballI)
    fix w x assume "w \<in> set ws" "x \<in> set (loc_mat w)"
    with wo have "0 \<le> x \<and> x \<le> INFINITY"
      by (auto simp: weights_ok_def in_range_def list_all_iff)
    with sum_in_range [OF d, of x]
    show "0 \<le> fst g + x \<and> fst g + x \<le> 2000000 \<and> c_add (fst g) x = Inr (fst g + x)" by simp
  qed
  from wf show ?thesis
  proof (cases rule: round_cases)
    case (break g)
    then show ?thesis by auto
  next
    case (overflow g r)
    from overflow(3) have ne: "snd g \<noteq> - 1" by simp
    note d = winner_value_range [OF wf dk overflow(2) ne]
    from no_sum_overflow [OF wf_group_nth(2) [OF wf overflow(6)] weights_ok_nth [OF wo overflow(6)]
        overflow(3,4) d] overflow(7)
    show ?thesis by simp
  next
    case (continue g ws')
    from continue(3) have ne: "snd g \<noteq> - 1" by simp
    note d = winner_value_range [OF wf dk continue(2) ne]
    from continue(6) have l: "length ws' = length ws"
      and rel: "\<And>r. r < length ws \<Longrightarrow>
          relaxed loc_n (snd g) (fst g) (marked loc_n (snd g) (ws ! r)) (ws' ! r)"
      unfolding round_spec_def by blast+
    have ir: "in_range (loc_dist (ws' ! r)) \<and> in_range (loc_mat (ws' ! r))" if "r < length ws'" for r
    proof -
      from that l have rl: "r < length ws" by simp
      from relaxed_in_range [OF wf_group_nth(2) [OF wf rl] weights_ok_nth [OF wo rl]
          dists_ok_nth [OF dk rl] continue(3,4) d(1) rel [OF rl]]
      show ?thesis by simp
    qed
    then have "weights_ok ws'" "dists_ok ws'"
      by (simp_all add: weights_ok_def dists_ok_def list_all_length)
    with continue(1,5,7) d sums [OF d] show ?thesis by auto
  qed
qed

lemma loop_in_range:
  assumes wf: "wf_group n loc_n ws" and wo: "weights_ok ws" and dk: "dists_ok ws"
  shows "\<exists>ws'. Dijkstra_loop loc_n n i ws = Inr ws' \<and> wf_group n loc_n ws' \<and> dists_ok ws'"
proof -
  define P where "P = (\<lambda>(i::int) ws1. wf_group n loc_n ws1 \<and> weights_ok ws1 \<and> dists_ok ws1)"
  have init: "P i ws" using assms by (simp add: P_def)
  have step: "case Dijkstra_round loc_n ws1 of Inl e \<Rightarrow> False | Inr None \<Rightarrow> P 0 ws1
        | Inr (Some ws2) \<Rightarrow> P (i + 1) ws2" if "P i ws1" for i ws1
  proof -
    from that have "wf_group n loc_n ws1" "weights_ok ws1" "dists_ok ws1" by (simp_all add: P_def)
    from round_in_range [OF this] obtain res where "Dijkstra_round loc_n ws1 = Inr res"
      "\<forall>ws'. res = Some ws' \<longrightarrow> wf_group n loc_n ws' \<and> weights_ok ws' \<and> dists_ok ws'"
      by blast
    with that show ?thesis by (cases res) (simp_all add: P_def)
  qed
  have "case Dijkstra_loop loc_n n i ws of Inl e \<Rightarrow> False | Inr ws' \<Rightarrow> P 0 ws'"
    by (rule Dijkstra_loop_rule [where P = P, OF init]) (use step in \<open>auto simp: P_def\<close>)
  then show ?thesis by (auto simp: P_def split: sum.splits)
qed

lemma Init_in_range:
  assumes wf: "wf_start n loc_n ws" and wo: "weights_ok ws"
  shows "\<exists>ws0. collect (map (\<lambda>w. Dijkstra_Init loc_n (w\<lparr>loc_known := replicate (nat loc_n) 0\<rparr>)) ws) = Inr ws0 \<and>
            wf_group n loc_n ws0 \<and> weights_ok ws0 \<and> dists_ok ws0"
proof -
  from Init_group_spec [OF wf] obtain ws0 where
    c: "collect (map (\<lambda>w. Dijkstra_Init loc_n (w\<lparr>loc_known := replicate (nat loc_n) 0\<rparr>)) ws) = Inr ws0"
    and l: "length ws0 = length ws"
    and i: "\<And>r. r < length ws \<Longrightarrow> initialised loc_n (ws ! r) (ws0 ! r)"
    and wg: "wf_group n loc_n ws0" by blast
  note f = wf_start_facts [OF wf]
  have big: "loc_n \<le> n * loc_n" using f(1,4) by (simp add: mult_le_cancel_right1)
  have ir: "in_range (loc_dist (ws0 ! r)) \<and> in_range (loc_mat (ws0 ! r))" if "r < length ws0" for r
  proof -
    from that l have rl: "r < length ws" by simp
    note ini = i [OF rl, unfolded initialised_def]
    from weights_ok_nth [OF wo rl] have im: "in_range (loc_mat (ws ! r))" .
    from wf_start_nth [OF wf rl] have ml: "length (loc_mat (ws ! r)) = nat (n * loc_n)"
      by (simp add: wf_alloc_def)
    have "in_range (loc_dist (ws0 ! r))"
    proof (rule in_rangeI)
      fix j assume j: "0 \<le> j" "j < int (length (loc_dist (ws0 ! r)))"
      with ini have jl: "j < loc_n" by (simp split: if_splits)
      with ini j have e: "loc_dist (ws0 ! r) ! nat j = loc_mat (ws ! r) ! nat j" by blast
      from jl big ml have "j < int (length (loc_mat (ws ! r)))" by simp
      from in_range_nth [OF im j(1) this] e
      show "0 \<le> loc_dist (ws0 ! r) ! nat j \<and> loc_dist (ws0 ! r) ! nat j \<le> INFINITY" by simp
    qed
    moreover from ini im have "in_range (loc_mat (ws0 ! r))" by simp
    ultimately show ?thesis by simp
  qed
  then have "weights_ok ws0" "dists_ok ws0"
    by (simp_all add: weights_ok_def dists_ok_def list_all_length)
  with c wg show ?thesis by blast
qed

lemma sentinel_edge_no_update:
  assumes ww: "wf_worker n loc_n w" and idist: "in_range (loc_dist w)"
    and u: "0 \<le> u" "u < n" and v: "0 \<le> v" "v < loc_n" and d: "0 \<le> d" "d < INFINITY"
    and e: "loc_mat w ! nat (u * loc_n + v) = INFINITY"
  shows "relax_body loc_n u d v w = Inr w"
proof -
  from ww have "length (loc_dist w) = nat loc_n" by (simp add: wf_worker_def wf_alloc_def)
  with in_range_nth [OF idist v(1)] v have "loc_dist w ! nat v \<le> INFINITY" by simp
  with d have "\<not> d + INFINITY < loc_dist w ! nat v" by simp
  moreover have "INT_MIN \<le> d + INFINITY \<and> d + INFINITY \<le> INT_MAX"
    using d by (simp add: INFINITY_def INT_MIN_def INT_MAX_def)
  ultimately show ?thesis
    unfolding relax_body_step [OF ww u v] e by simp
qed

lemma round_faults:
  assumes wf: "wf_group n loc_n ws"
  shows "case Dijkstra_round loc_n ws of Inl e \<Rightarrow> e = Overflow | Inr None \<Rightarrow> True
         | Inr (Some ws') \<Rightarrow> wf_group n loc_n ws'"
  using wf by (cases rule: round_cases) simp_all

lemma loop_faults:
  assumes wf: "wf_group n loc_n ws"
  shows "case Dijkstra_loop loc_n n i ws of Inl e \<Rightarrow> e = Overflow | Inr ws' \<Rightarrow> wf_group n loc_n ws'"
proof -
  define P where "P = (\<lambda>(i::int) ws1. wf_group n loc_n ws1)"
  have init: "P i ws" using wf by (simp add: P_def)
  have step: "case Dijkstra_round loc_n ws1 of Inl e \<Rightarrow> e = Overflow | Inr None \<Rightarrow> P 0 ws1
        | Inr (Some ws2) \<Rightarrow> P (i + 1) ws2" if "P i ws1" for i ws1
    using round_faults [of n loc_n ws1] that by (auto simp: P_def split: sum.splits option.splits)
  have "case Dijkstra_loop loc_n n i ws of Inl e \<Rightarrow> e = Overflow | Inr ws' \<Rightarrow> P 0 ws'"
    by (rule Dijkstra_loop_rule [where P = P, OF init]) (use step in \<open>auto simp: P_def\<close>)
  then show ?thesis unfolding P_def .
qed

lemma reaches_mono: "reaches k ps w \<Longrightarrow> k \<le> k' \<Longrightarrow> reaches k' ps w"
proof (induction k arbitrary: k' w)
  case 0
  then show ?case by (cases k') simp_all
next
  case (Suc k)
  from Suc.prems(2) obtain m where m: "k' = Suc m" "k \<le> m" by (cases k') simp_all
  from Suc.prems(1) Suc.IH [of _ m] m show ?case by auto
qed

lemma chain_inv_mono: "chain_inv k n ps ks \<Longrightarrow> k \<le> k' \<Longrightarrow> chain_inv k' n ps ks"
  unfolding chain_inv_def using reaches_mono by blast

lemma reaches_transfer:
  assumes len: "int (length ps) = n" "int (length ps') = n"
    and old: "\<And>v. 0 \<le> v \<Longrightarrow> v < n \<Longrightarrow> 0 \<le> ps ! nat v \<and> ps ! nat v < n \<and> ks ! nat (ps ! nat v) \<noteq> 0"
    and kmono: "\<And>v. 0 \<le> v \<Longrightarrow> v < n \<Longrightarrow> ks ! nat v \<noteq> 0 \<Longrightarrow> ks' ! nat v \<noteq> 0"
    and frozen: "\<And>v. 0 \<le> v \<Longrightarrow> v < n \<Longrightarrow> ks' ! nat v \<noteq> 0 \<Longrightarrow> ps' ! nat v = ps ! nat v"
  shows "reaches m ps w \<Longrightarrow> 0 \<le> w \<Longrightarrow> w < n \<Longrightarrow> ks' ! nat w \<noteq> 0 \<Longrightarrow> reaches m ps' w"
proof (induction m arbitrary: w)
  case 0
  then show ?case by simp
next
  case (Suc m)
  show ?case
  proof (cases "w = 0")
    case True then show ?thesis by simp
  next
    case False
    with Suc.prems(1) have r: "reaches m ps (ps ! nat w)" by simp
    from frozen [OF Suc.prems(2,3,4)] have e: "ps' ! nat w = ps ! nat w" .
    from old [OF Suc.prems(2,3)] have u: "0 \<le> ps ! nat w" "ps ! nat w < n" "ks ! nat (ps ! nat w) \<noteq> 0"
      by simp_all
    from kmono [OF u] have "ks' ! nat (ps ! nat w) \<noteq> 0" .
    from Suc.IH [OF r u(1,2) this] e Suc.prems(2,3) len show ?thesis by simp
  qed
qed

lemma chain_step:
  assumes inv: "chain_inv k n ps ks"
    and len: "int (length ps') = n" "int (length ks') = n"
    and kmono: "\<And>v. 0 \<le> v \<Longrightarrow> v < n \<Longrightarrow> ks ! nat v \<noteq> 0 \<Longrightarrow> ks' ! nat v \<noteq> 0"
    and frozen: "\<And>v. 0 \<le> v \<Longrightarrow> v < n \<Longrightarrow> ks' ! nat v \<noteq> 0 \<Longrightarrow> ps' ! nat v = ps ! nat v"
    and upd: "\<And>v. 0 \<le> v \<Longrightarrow> v < n \<Longrightarrow> ps' ! nat v = ps ! nat v \<or> ps' ! nat v = u"
    and u: "0 \<le> u" "u < n" "ks' ! nat u \<noteq> 0"
  shows "chain_inv (Suc k) n ps' ks'"
proof -
  from inv have lp: "int (length ps) = n"
    and old: "\<And>v. 0 \<le> v \<Longrightarrow> v < n \<Longrightarrow> 0 \<le> ps ! nat v \<and> ps ! nat v < n \<and> ks ! nat (ps ! nat v) \<noteq> 0"
    and rch: "\<And>v. 0 \<le> v \<Longrightarrow> v < n \<Longrightarrow> reaches k ps v"
    unfolding chain_inv_def by blast+
  have tr: "reaches m ps' w" if "reaches m ps w" "0 \<le> w" "w < n" "ks' ! nat w \<noteq> 0" for m w
  proof (rule reaches_transfer [where ps = ps and ks = ks and ks' = ks' and n = n])
    show "int (length ps) = n" "int (length ps') = n" by fact+
    show "\<And>v. 0 \<le> v \<Longrightarrow> v < n \<Longrightarrow>
        0 \<le> ps ! nat v \<and> ps ! nat v < n \<and> ks ! nat (ps ! nat v) \<noteq> 0" by (rule old)
    show "\<And>v. 0 \<le> v \<Longrightarrow> v < n \<Longrightarrow> ks ! nat v \<noteq> 0 \<Longrightarrow> ks' ! nat v \<noteq> 0" by (rule kmono)
    show "\<And>v. 0 \<le> v \<Longrightarrow> v < n \<Longrightarrow> ks' ! nat v \<noteq> 0 \<Longrightarrow> ps' ! nat v = ps ! nat v"
      by (rule frozen)
    show "reaches m ps w" "0 \<le> w" "w < n" "ks' ! nat w \<noteq> 0" by fact+
  qed
  have "0 \<le> ps' ! nat v \<and> ps' ! nat v < n \<and> ks' ! nat (ps' ! nat v) \<noteq> 0 \<and> reaches (Suc k) ps' v"
    if v: "0 \<le> v" "v < n" for v
  proof -
    from upd [OF v] show ?thesis
    proof
      assume e: "ps' ! nat v = ps ! nat v"
      from old [OF v] have p: "0 \<le> ps ! nat v" "ps ! nat v < n" "ks ! nat (ps ! nat v) \<noteq> 0"
        by simp_all
      from kmono [OF p] have k': "ks' ! nat (ps ! nat v) \<noteq> 0" .
      from tr [OF rch [OF p(1,2)] p(1,2) k'] have "reaches k ps' (ps ! nat v)" .
      with e p k' v len show ?thesis by simp
    next
      assume e: "ps' ! nat v = u"
      from tr [OF rch [OF u(1,2)] u] have "reaches k ps' u" .
      with e u v len show ?thesis by simp
    qed
  qed
  with len show ?thesis unfolding chain_inv_def by blast
qed

lemma round_marks_vertex:
  assumes wf: "wf_group n loc_n ws" and rs: "round_spec loc_n g ws ws'"
    and u: "0 \<le> snd g" "snd g < n"
  shows "global_known loc_n ws' ! nat (snd g) = 1"
proof -
  from round_spec_wf [OF wf rs] have wf': "wf_group n loc_n ws'" .
  from global_split [OF wf u] obtain r j where
    rj: "r < length ws" "0 \<le> j" "j < loc_n" "snd g = j + int r * loc_n" by blast
  from rs rj(1) have rel: "relaxed loc_n (snd g) (fst g) (marked loc_n (snd g) (ws ! r)) (ws' ! r)"
    and l: "length ws' = length ws"
    unfolding round_spec_def by simp_all
  then have "loc_known (ws' ! r) = loc_known (marked loc_n (snd g) (ws ! r))"
    by (simp add: relaxed_def)
  with marked_known_owner [OF wf rj(1,2,3)] rj(4) have "loc_known (ws' ! r) ! nat j = 1" by simp
  moreover from rj(1) l have "r < length ws'" by simp
  from global_nth(3) [OF wf' this rj(2,3)] rj(4)
  have "global_known loc_n ws' ! nat (snd g) = loc_known (ws' ! r) ! nat j" by simp
  ultimately show ?thesis by simp
qed

lemma round_chain:
  assumes wf: "wf_group n loc_n ws" and rs: "round_spec loc_n g ws ws'"
    and u: "0 \<le> snd g" "snd g < n"
    and inv: "chain_inv k n (global_pred loc_n ws) (global_known loc_n ws)"
  shows "chain_inv (Suc k) n (global_pred loc_n ws') (global_known loc_n ws')"
proof (rule chain_step [OF inv _ _ _ _ _ u])
  from round_spec_wf [OF wf rs] have wf': "wf_group n loc_n ws'" .
  from global_length [OF wf'] show "int (length (global_pred loc_n ws')) = n"
    "int (length (global_known loc_n ws')) = n" by simp_all
  from round_marks_vertex [OF wf rs u] show "global_known loc_n ws' ! nat (snd g) \<noteq> 0" by simp
  from rs have l: "length ws' = length ws"
    and rel: "\<And>r. r < length ws \<Longrightarrow>
        relaxed loc_n (snd g) (fst g) (marked loc_n (snd g) (ws ! r)) (ws' ! r)"
    unfolding round_spec_def by blast+
  have loc: "(loc_known (ws ! r) ! nat j \<noteq> 0 \<longrightarrow> loc_known (ws' ! r) ! nat j \<noteq> 0) \<and>
             (loc_known (ws' ! r) ! nat j \<noteq> 0 \<longrightarrow> loc_pred (ws' ! r) ! nat j = loc_pred (ws ! r) ! nat j) \<and>
             (loc_pred (ws' ! r) ! nat j = loc_pred (ws ! r) ! nat j \<or> loc_pred (ws' ! r) ! nat j = snd g)"
    if r: "r < length ws" and j: "0 \<le> j" "j < loc_n" for r j
  proof -
    let ?m = "marked loc_n (snd g) (ws ! r)"
    have mp: "loc_pred ?m = loc_pred (ws ! r)" by (simp add: marked_def)
    from rel [OF r] have k: "loc_known (ws' ! r) = loc_known ?m" by (simp add: relaxed_def)
    from rel [OF r] j
    have c: "if loc_known ?m ! nat j = 0 \<and>
                fst g + loc_mat ?m ! nat (snd g * loc_n + j) < loc_dist ?m ! nat j
       then loc_dist (ws' ! r) ! nat j = fst g + loc_mat ?m ! nat (snd g * loc_n + j) \<and>
            loc_pred (ws' ! r) ! nat j = snd g
       else loc_dist (ws' ! r) ! nat j = loc_dist ?m ! nat j \<and>
            loc_pred (ws' ! r) ! nat j = loc_pred ?m ! nat j"
      unfolding relaxed_def by blast
    from marked_known [of "ws ! r" j loc_n "snd g"] k
    have "loc_known (ws ! r) ! nat j \<noteq> 0 \<longrightarrow> loc_known (ws' ! r) ! nat j \<noteq> 0" by simp
    moreover from c k mp
    have "loc_known (ws' ! r) ! nat j \<noteq> 0 \<longrightarrow> loc_pred (ws' ! r) ! nat j = loc_pred (ws ! r) ! nat j"
      by (auto split: if_splits)
    moreover from c mp
    have "loc_pred (ws' ! r) ! nat j = loc_pred (ws ! r) ! nat j \<or> loc_pred (ws' ! r) ! nat j = snd g"
      by (auto split: if_splits)
    ultimately show ?thesis by blast
  qed
  have glob: "(global_known loc_n ws ! nat v \<noteq> 0 \<longrightarrow> global_known loc_n ws' ! nat v \<noteq> 0) \<and>
       (global_known loc_n ws' ! nat v \<noteq> 0 \<longrightarrow> global_pred loc_n ws' ! nat v = global_pred loc_n ws ! nat v) \<and>
       (global_pred loc_n ws' ! nat v = global_pred loc_n ws ! nat v \<or> global_pred loc_n ws' ! nat v = snd g)"
    if v: "0 \<le> v" "v < n" for v
  proof -
    from global_split [OF wf v] obtain r j where
      rj: "r < length ws" "0 \<le> j" "j < loc_n" "v = j + int r * loc_n" by blast
    from rj(1) l have r': "r < length ws'" by simp
    from loc [OF rj(1,2,3)] global_nth(2,3) [OF wf rj(1,2,3)] global_nth(2,3) [OF wf' r' rj(2,3)]
    show ?thesis unfolding rj(4) by simp
  qed
  from glob show "\<And>v. 0 \<le> v \<Longrightarrow> v < n \<Longrightarrow> global_known loc_n ws ! nat v \<noteq> 0 \<Longrightarrow>
      global_known loc_n ws' ! nat v \<noteq> 0" by blast
  from glob show "\<And>v. 0 \<le> v \<Longrightarrow> v < n \<Longrightarrow> global_known loc_n ws' ! nat v \<noteq> 0 \<Longrightarrow>
      global_pred loc_n ws' ! nat v = global_pred loc_n ws ! nat v" by blast
  from glob show "\<And>v. 0 \<le> v \<Longrightarrow> v < n \<Longrightarrow>
      global_pred loc_n ws' ! nat v = global_pred loc_n ws ! nat v \<or>
      global_pred loc_n ws' ! nat v = snd g" by blast
qed

lemma Init_chain:
  assumes wf: "wf_start n loc_n ws"
    and c: "collect (map (\<lambda>w. Dijkstra_Init loc_n (w\<lparr>loc_known := replicate (nat loc_n) 0\<rparr>)) ws) = Inr ws0"
  shows "wf_group n loc_n ws0" and "chain_inv 1 n (global_pred loc_n ws0) (global_known loc_n ws0)"
proof -
  from Init_group_spec [OF wf] c have l: "length ws0 = length ws"
    and i: "\<And>r. r < length ws \<Longrightarrow> initialised loc_n (ws ! r) (ws0 ! r)"
    and wg: "wf_group n loc_n ws0" by auto
  show "wf_group n loc_n ws0" by fact
  note f = wf_start_facts [OF wf]
  from f(2) have r0: "0 < length ws" by simp
  then have r0': "0 < length ws0" using l by simp
  from f(5) r0 have rk: "my_rank (ws ! 0) = 0"
  proof -
    have "my_rank (ws ! 0) = map my_rank ws ! 0" using r0 by simp
    also have "\<dots> = [0..int (length ws) - 1] ! 0" using f(5) by (simp add: wf_ranks_def)
    also have "\<dots> = 0" using r0 by (simp add: nth_upto)
    finally show ?thesis .
  qed
  from i [OF r0] have "\<forall>j. 0 \<le> j \<and> j < loc_n \<longrightarrow>
        loc_known (ws0 ! 0) ! nat j = (if my_rank (ws ! 0) = 0 \<and> j = 0 then 1 else 0)"
    unfolding initialised_def by blast
  from this [THEN spec, of 0] rk f(1) have "loc_known (ws0 ! 0) ! nat 0 = 1" by simp
  with global_nth(3) [OF wg r0', of 0] f(1) have k0: "global_known loc_n ws0 ! 0 = 1" by simp
  have p: "global_pred loc_n ws0 ! nat v = 0" if v: "0 \<le> v" "v < n" for v
  proof -
    from global_split [OF wg v] obtain r j where
      rj: "r < length ws0" "0 \<le> j" "j < loc_n" "v = j + int r * loc_n" by blast
    from rj(1) l have "r < length ws" by simp
    from i [OF this] rj(2,3) have "loc_pred (ws0 ! r) ! nat j = 0" unfolding initialised_def by simp
    with global_nth(2) [OF wg rj(1,2,3)] rj(4) show ?thesis by simp
  qed
  from global_length [OF wg] have len: "int (length (global_pred loc_n ws0)) = n"
    "int (length (global_known loc_n ws0)) = n" by simp_all
  have "0 \<le> global_pred loc_n ws0 ! nat v \<and> global_pred loc_n ws0 ! nat v < n \<and>
        global_known loc_n ws0 ! nat (global_pred loc_n ws0 ! nat v) \<noteq> 0 \<and>
        reaches 1 (global_pred loc_n ws0) v" if v: "0 \<le> v \<and> v < n" for v
    using p [of v] v k0 f(4) len by simp
  with len show "chain_inv 1 n (global_pred loc_n ws0) (global_known loc_n ws0)"
    unfolding chain_inv_def by blast
qed

lemma loop_chain:
  assumes wf: "wf_group n loc_n ws" and i: "0 \<le> i" "i \<le> n - 1"
    and inv: "chain_inv (nat i + 1) n (global_pred loc_n ws) (global_known loc_n ws)"
    and rs: "Dijkstra_loop loc_n n i ws = Inr ws'"
  shows "wf_group n loc_n ws' \<and> chain_inv (nat n) n (global_pred loc_n ws') (global_known loc_n ws')"
proof -
  define P where "P = (\<lambda>(i::int) ws1. 0 \<le> i \<and> i \<le> n - 1 \<and> wf_group n loc_n ws1 \<and>
      chain_inv (nat i + 1) n (global_pred loc_n ws1) (global_known loc_n ws1))"
  define Q where "Q = (\<lambda>ws1. wf_group n loc_n ws1 \<and>
      chain_inv (nat n) n (global_pred loc_n ws1) (global_known loc_n ws1))"
  have init: "P i ws" using wf i inv by (simp add: P_def)
  have pq: "Q ws1" if "P i ws1" for i ws1
  proof -
    from that have "0 \<le> i" "i \<le> n - 1" by (simp_all add: P_def)
    then have "nat i + 1 \<le> nat n" by arith
    with that chain_inv_mono show ?thesis unfolding P_def Q_def by blast
  qed
  have step: "case Dijkstra_round loc_n ws1 of Inl e \<Rightarrow> True | Inr None \<Rightarrow> Q ws1
        | Inr (Some ws2) \<Rightarrow> P (i + 1) ws2" if p: "P i ws1" and lt: "i < n - 1" for i ws1
  proof -
    from p have w1: "wf_group n loc_n ws1" and i0: "0 \<le> i"
      and c1: "chain_inv (nat i + 1) n (global_pred loc_n ws1) (global_known loc_n ws1)"
      by (simp_all add: P_def)
    from w1 show ?thesis
    proof (cases rule: round_cases)
      case (break g)
      with pq [OF p] show ?thesis by simp
    next
      case (overflow g r)
      then show ?thesis by simp
    next
      case (continue g ws2)
      from round_chain [OF w1 continue(6,3,4) c1]
      have "chain_inv (Suc (nat i + 1)) n (global_pred loc_n ws2) (global_known loc_n ws2)" .
      moreover have "Suc (nat i + 1) = nat (i + 1) + 1" using i0 by simp
      ultimately have "P (i + 1) ws2" using continue(7) i0 lt by (simp add: P_def)
      with continue(5) show ?thesis by simp
    qed
  qed
  have "case Dijkstra_loop loc_n n i ws of Inl e \<Rightarrow> True | Inr ws' \<Rightarrow> Q ws'"
    by (rule Dijkstra_loop_rule [where P = P, OF init step]) (use pq in auto)
  with rs show ?thesis by (simp add: Q_def)
qed

lemma path_loop_terminates:
  "reaches k ps w \<Longrightarrow> 0 \<le> count \<Longrightarrow> count + int k \<le> int (length path) \<Longrightarrow>
     \<exists>path' count'. path_loop ps path count w = Some (Inr (path', count')) \<and>
        count' \<le> count + int k \<and> length path' = length path"
proof (induction k arbitrary: w count path)
  case 0
  then show ?case by (simp add: path_loop.simps)
next
  case (Suc k)
  show ?case
  proof (cases "w = 0")
    case True
    then show ?thesis using Suc.prems(2) by (simp add: path_loop.simps)
  next
    case False
    with Suc.prems(1) have w: "0 \<le> w" "w < int (length ps)" and r: "reaches k ps (ps ! nat w)"
      by simp_all
    from Suc.prems(2,3) have a: "wr path count w = Inr (path[nat count := w])" by (simp add: wr_Inr)
    from w have b: "rd ps w = Inr (ps ! nat w)" by (simp add: rd_Inr)
    have "0 \<le> count + 1" "count + 1 + int k \<le> int (length (path[nat count := w]))"
      using Suc.prems(2,3) by simp_all
    from Suc.IH [OF r this] obtain path' count' where
      "path_loop ps (path[nat count := w]) (count + 1) (ps ! nat w) = Some (Inr (path', count'))"
      "count' \<le> count + 1 + int k" "length path' = length path" by auto
    moreover have "path_loop ps path count w = path_loop ps (path[nat count := w]) (count + 1) (ps ! nat w)"
      using False a b by (subst path_loop.simps) simp
    ultimately show ?thesis by simp
  qed
qed

lemma sdiv_nonneg: "0 \<le> (a::int) \<Longrightarrow> 0 < b \<Longrightarrow> a sdiv b = a div b"
  by (simp add: signed_divide_int_def sgn_if)

lemma collect_concat_rd:
  assumes "\<And>i j. i \<in> set is \<Longrightarrow> j \<in> set js \<Longrightarrow> f i j = Inr (g i j)"
  shows "collect (concat (map (\<lambda>i. map (f i) js) is)) = Inr (concat (map (\<lambda>i. map (g i) js) is))"
proof -
  have "concat (map (\<lambda>i. map (f i) js) is) = map Inr (concat (map (\<lambda>i. map (g i) js) is))"
    using assms by (induction "is") simp_all
  then show ?thesis by (simp only: collect_Inr_iff)
qed

lemma length_concat_const:
  "length (concat (map (\<lambda>i. map (g i) js) is)) = length is * length js"
  by (induction "is") simp_all

lemma scatter_index_bound:
  assumes r: "0 \<le> (r::int)" and b: "(r + 1) * loc_n \<le> n"
    and i: "0 \<le> i" "i \<le> n - 1" and j: "0 \<le> j" "j \<le> loc_n - 1"
  shows "0 \<le> r * loc_n + i * n + j" and "r * loc_n + i * n + j < n * n"
proof -
  have ln: "0 \<le> loc_n" using j by simp
  have n0: "0 \<le> n" using i by simp
  show "0 \<le> r * loc_n + i * n + j" using r ln i n0 j by simp
  have "r * loc_n + j < (r + 1) * loc_n" using j by (simp add: algebra_simps)
  with b have a: "r * loc_n + j < n" by simp
  have "i * n \<le> (n - 1) * n" using i n0 by (intro mult_right_mono) auto
  with a have "r * loc_n + i * n + j < n + (n - 1) * n" by simp
  also have "\<dots> = n * n" by (simp add: algebra_simps)
  finally show "r * loc_n + i * n + j < n * n" .
qed

lemma relax_body_in_range:
  assumes ww: "wf_worker n loc_n w" and im: "in_range (loc_mat w)" and idist: "in_range (loc_dist w)"
    and u: "0 \<le> u" "u < n" and v: "0 \<le> v" "v < loc_n" and d: "0 \<le> d"
    and r: "relax_body loc_n u d v w = Inr w'"
  shows "in_range (loc_dist w')"
proof -
  from ww have len: "length (loc_mat w) = nat (n * loc_n)" "length (loc_dist w) = nat loc_n"
    by (simp_all add: wf_worker_def wf_alloc_def)
  let ?x = "d + loc_mat w ! nat (u * loc_n + v)"
  from block_index_bound [OF u v] len
  have "0 \<le> u * loc_n + v" "u * loc_n + v < int (length (loc_mat w))" by simp_all
  from in_range_nth [OF im this] d have x0: "0 \<le> ?x" by simp
  from in_range_nth [OF idist v(1)] v len have old: "loc_dist w ! nat v \<le> INFINITY" by simp
  from r have "w' = w \<or>
      ?x < loc_dist w ! nat v \<and> loc_dist w' = (loc_dist w)[nat v := ?x]"
    unfolding relax_body_step [OF ww u v] by (auto split: if_splits)
  then show ?thesis
  proof
    assume "w' = w"
    with idist show ?thesis by simp
  next
    assume a: "?x < loc_dist w ! nat v \<and> loc_dist w' = (loc_dist w)[nat v := ?x]"
    with old x0 have "0 \<le> ?x \<and> ?x \<le> INFINITY" by simp
    moreover from idist have "list_all (\<lambda>x. 0 \<le> x \<and> x \<le> INFINITY) (loc_dist w)"
      by (simp add: in_range_def)
    ultimately have "list_all (\<lambda>x. 0 \<le> x \<and> x \<le> INFINITY) ((loc_dist w)[nat v := ?x])"
      by (auto simp: list_all_iff dest: set_update_subset_insert [THEN subsetD])
    with a show ?thesis by (simp add: in_range_def)
  qed
qed

lemma winner_spec_global:
  assumes wf: "wf_group n loc_n ws" and w: "winner_spec loc_n ws g"
  shows "global_winner n (global_dist loc_n ws) (global_known loc_n ws) g"
proof -
  have split: "\<exists>r j. r < length ws \<and> 0 \<le> j \<and> j < loc_n \<and> v = j + int r * loc_n \<and>
      global_known loc_n ws ! nat v = loc_known (ws ! r) ! nat j \<and>
      global_dist loc_n ws ! nat v = loc_dist (ws ! r) ! nat j" if v: "0 \<le> v" "v < n" for v
  proof -
    from global_split [OF wf v] obtain r j where
      rj: "r < length ws" "0 \<le> j" "j < loc_n" "v = j + int r * loc_n" by blast
    with global_nth(1,3) [OF wf rj(1,2,3)] show ?thesis by auto
  qed
  from w consider
    (sentinel) "fst g = INFINITY" "snd g = - 1"
      "\<And>r j. r < length ws \<and> 0 \<le> j \<and> j < loc_n \<and> loc_known (ws ! r) ! nat j = 0 \<Longrightarrow>
               INFINITY \<le> loc_dist (ws ! r) ! nat j"
    | (vertex) r u where "r < length ws" "0 \<le> u" "u < loc_n" "snd g = u + int r * loc_n"
        "loc_known (ws ! r) ! nat u = 0" "loc_dist (ws ! r) ! nat u = fst g" "fst g < INFINITY"
        "\<And>r' j. r' < length ws \<and> 0 \<le> j \<and> j < loc_n \<and> loc_known (ws ! r') ! nat j = 0 \<Longrightarrow>
                fst g < loc_dist (ws ! r') ! nat j \<or>
                fst g = loc_dist (ws ! r') ! nat j \<and> snd g \<le> j + int r' * loc_n"
    unfolding winner_spec_def by blast
  then show ?thesis
  proof cases
    case sentinel
    have "INFINITY \<le> global_dist loc_n ws ! nat v"
      if "0 \<le> v \<and> v < n \<and> global_known loc_n ws ! nat v = 0" for v
      using split [of v] that sentinel(3) by force
    with sentinel(1,2) show ?thesis unfolding global_winner_def by blast
  next
    case vertex
    have "0 \<le> int r * loc_n" using wf_group_facts(1) [OF wf] by simp
    with vertex(2,4) have "snd g \<noteq> - 1" by simp
    with winner_range [OF wf w] have rng: "0 \<le> snd g" "snd g < n" by simp_all
    have k: "global_known loc_n ws ! nat (snd g) = 0"
      using global_nth(3) [OF wf vertex(1,2,3)] vertex(4,5) by simp
    have d: "global_dist loc_n ws ! nat (snd g) = fst g"
      using global_nth(1) [OF wf vertex(1,2,3)] vertex(4,6) by simp
    have "fst g < global_dist loc_n ws ! nat v \<or> fst g = global_dist loc_n ws ! nat v \<and> snd g \<le> v"
      if "0 \<le> v \<and> v < n \<and> global_known loc_n ws ! nat v = 0" for v
      using split [of v] that vertex(8) by force
    with rng k d vertex(7) show ?thesis unfolding global_winner_def by blast
  qed
qed

lemma global_winner_unique:
  assumes a: "global_winner n gd gk g" and b: "global_winner n gd gk g'"
  shows "g = g'"
proof -
  have sv: False
    if s: "\<forall>v. 0 \<le> v \<and> v < n \<and> gk ! nat v = 0 \<longrightarrow> INFINITY \<le> gd ! nat v"
      and v: "0 \<le> snd h" "snd h < n" "gk ! nat (snd h) = 0" "gd ! nat (snd h) = fst h" "fst h < INFINITY"
    for h :: "int \<times> int"
    using s [THEN spec, of "snd h"] v by simp
  have vv: "fst h \<le> fst h' \<and> (fst h = fst h' \<longrightarrow> snd h \<le> snd h')"
    if m: "\<forall>v. 0 \<le> v \<and> v < n \<and> gk ! nat v = 0 \<longrightarrow>
              fst h < gd ! nat v \<or> fst h = gd ! nat v \<and> snd h \<le> v"
      and v: "0 \<le> snd h'" "snd h' < n" "gk ! nat (snd h') = 0" "gd ! nat (snd h') = fst h'"
    for h h' :: "int \<times> int"
    using m [THEN spec, of "snd h'"] v by auto
  from a b have "fst g = fst g' \<and> snd g = snd g'"
    unfolding global_winner_def
  proof (elim disjE conjE)
    assume "fst g = INFINITY" "snd g = - 1" "fst g' = INFINITY" "snd g' = - 1"
    then show ?thesis by simp
  next
    assume "\<forall>v. 0 \<le> v \<and> v < n \<and> gk ! nat v = 0 \<longrightarrow> INFINITY \<le> gd ! nat v"
      "0 \<le> snd g'" "snd g' < n" "gk ! nat (snd g') = 0" "gd ! nat (snd g') = fst g'" "fst g' < INFINITY"
    from sv [OF this] show ?thesis ..
  next
    assume "\<forall>v. 0 \<le> v \<and> v < n \<and> gk ! nat v = 0 \<longrightarrow> INFINITY \<le> gd ! nat v"
      "0 \<le> snd g" "snd g < n" "gk ! nat (snd g) = 0" "gd ! nat (snd g) = fst g" "fst g < INFINITY"
    from sv [OF this] show ?thesis ..
  next
    assume g: "0 \<le> snd g" "snd g < n" "gk ! nat (snd g) = 0" "gd ! nat (snd g) = fst g"
      and g': "0 \<le> snd g'" "snd g' < n" "gk ! nat (snd g') = 0" "gd ! nat (snd g') = fst g'"
      and m: "\<forall>v. 0 \<le> v \<and> v < n \<and> gk ! nat v = 0 \<longrightarrow>
              fst g < gd ! nat v \<or> fst g = gd ! nat v \<and> snd g \<le> v"
      and m': "\<forall>v. 0 \<le> v \<and> v < n \<and> gk ! nat v = 0 \<longrightarrow>
              fst g' < gd ! nat v \<or> fst g' = gd ! nat v \<and> snd g' \<le> v"
    from vv [OF m g'] vv [OF m' g] show ?thesis by auto
  qed
  then show ?thesis by (simp add: prod_eq_iff)
qed

lemma winner_independent_of_partition:
  assumes w1: "wf_group n loc_n ws" and w2: "wf_group n loc_n' ws'"
    and d: "global_dist loc_n' ws' = global_dist loc_n ws"
    and k: "global_known loc_n' ws' = global_known loc_n ws"
  shows "glbl_min_of loc_n' ws' = glbl_min_of loc_n ws"
proof -
  from glbl_min_spec [OF w1] obtain g where g: "glbl_min_of loc_n ws = Inr (Some g)"
    "winner_spec loc_n ws g" by blast
  from glbl_min_spec [OF w2] obtain g' where g': "glbl_min_of loc_n' ws' = Inr (Some g')"
    "winner_spec loc_n' ws' g'" by blast
  from winner_spec_global [OF w1 g(2)] winner_spec_global [OF w2 g'(2)] d k
  have "g = g'" by (simp add: global_winner_unique)
  with g(1) g'(1) show ?thesis by simp
qed

lemma in_range_subset: "in_range xs \<Longrightarrow> set ys \<subseteq> set xs \<Longrightarrow> in_range ys"
  by (auto simp: in_range_def list_all_iff)

lemma gather_in_range:
  assumes "dists_ok ws"
  shows "in_range (global_dist loc_n ws)"
proof -
  have "set (global_dist loc_n ws) \<subseteq> (\<Union>w \<in> set ws. set (loc_dist w))"
    unfolding global_dist_def MPI_Gather_def by (auto dest: in_set_takeD)
  with assms show ?thesis
    by (auto simp: dists_ok_def in_range_def list_all_iff)
qed

lemma chains_end_at_source:
  assumes wf: "wf_start n loc_n ws" and run: "Dijkstra loc_n n ws = Inr ws'"
    and v: "0 \<le> v" "v < n"
  shows "reaches (nat n) (global_pred loc_n ws') v \<and>
         (\<exists>path. Print_path (global_pred loc_n ws') n v = Some (Inr path))"
proof -
  from run obtain ws0 where
    c: "collect (map (\<lambda>w. Dijkstra_Init loc_n (w\<lparr>loc_known := replicate (nat loc_n) 0\<rparr>)) ws) = Inr ws0"
    and lp: "Dijkstra_loop loc_n n 0 ws0 = Inr ws'"
    unfolding Dijkstra_def by (auto split: sum.splits)
  note f = wf_start_facts [OF wf]
  from Init_chain [OF wf c] have wg: "wf_group n loc_n ws0"
    and ci: "chain_inv (nat 0 + 1) n (global_pred loc_n ws0) (global_known loc_n ws0)" by simp_all
  from f(4) have "(0::int) \<le> 0" "0 \<le> n - 1" by simp_all
  from loop_chain [OF wg this ci lp]
  have fin: "chain_inv (nat n) n (global_pred loc_n ws') (global_known loc_n ws')" by simp
  with v have r: "reaches (nat n) (global_pred loc_n ws') v" unfolding chain_inv_def by blast
  have "(0::int) \<le> 0" "0 + int (nat n) \<le> int (length (replicate (nat n) (0::int)))" by simp_all
  from path_loop_terminates [OF r this] obtain path count where
    "path_loop (global_pred loc_n ws') (replicate (nat n) 0) 0 v = Some (Inr (path, count))" by blast
  then have "Print_path (global_pred loc_n ws') n v = Some (Inr (0 # rev (take (nat count) path)))"
    by (simp add: Print_path_def)
  with r show ?thesis by blast
qed

text \<open>
  Line 300 in every process: whoever owns the winner, each process sets its own cell
  \<open>glbl_min[1] % loc_n\<close>.
\<close>

lemma round_marks_every_process:
  assumes wf: "wf_group n loc_n ws" and rs: "Dijkstra_round loc_n ws = Inr (Some ws')"
    and g: "glbl_min_of loc_n ws = Inr (Some g)" and r: "r < length ws"
  shows "loc_known (ws' ! r) = (loc_known (ws ! r))[nat (snd g mod loc_n) := 1]"
  using wf
proof (cases rule: round_cases)
  case (break h) with rs show ?thesis by simp
next
  case (overflow h q) with rs show ?thesis by simp
next
  case (continue h ws'')
  with rs g have e: "ws'' = ws'" "h = g" by simp_all
  from continue(6) r have "relaxed loc_n (snd g) (fst g) (marked loc_n (snd g) (ws ! r)) (ws' ! r)"
    unfolding round_spec_def e by simp
  then show ?thesis by (simp add: relaxed_def marked_def)
qed

lemma reduction_tie_break:
  assumes wf: "wf_group n loc_n ws"
  shows "\<exists>cs g. collect (map (my_min loc_n) ws) = Inr cs \<and> MPI_Allreduce cs = Some g \<and>
           g \<in> set cs \<and> (\<forall>c \<in> set cs. fst g < fst c \<or> fst g = fst c \<and> snd g \<le> snd c) \<and>
           Dijkstra_round loc_n ws =
             (case collect (map (after_reduce loc_n g) ws) of
                Inl e \<Rightarrow> Inl e | Inr rs \<Rightarrow> Inr (all_continue rs)) \<and>
           (snd g \<noteq> - 1 \<longrightarrow>
              0 \<le> snd g \<and> snd g < n \<and>
              global_known loc_n ws ! nat (snd g) = 0 \<and>
              global_dist loc_n ws ! nat (snd g) = fst g \<and>
              (\<forall>v. 0 \<le> v \<and> v < n \<and> global_known loc_n ws ! nat v = 0 \<longrightarrow>
                   fst g < global_dist loc_n ws ! nat v \<or>
                   fst g = global_dist loc_n ws ! nat v \<and> snd g \<le> v) \<and>
              (\<forall>ws'. Dijkstra_round loc_n ws = Inr (Some ws') \<longrightarrow>
                   global_known loc_n ws' ! nat (snd g) = 1))"
proof -
  from glbl_min_spec [OF wf] obtain g where g: "glbl_min_of loc_n ws = Inr (Some g)"
    and w: "winner_spec loc_n ws g" by blast
  from g obtain cs where cs: "collect (map (my_min loc_n) ws) = Inr cs" and red: "MPI_Allreduce cs = Some g"
    unfolding glbl_min_of_def by (auto split: sum.splits)
  from red obtain c cs' where cc: "cs = c # cs'" and gd: "g = foldl MINLOC c cs'"
    by (cases cs) auto
  from foldl_MINLOC_spec [of c cs'] have mem: "g \<in> set cs"
    and le: "\<forall>x \<in> set cs. fst g < fst x \<or> fst g = fst x \<and> snd g \<le> snd x"
    unfolding gd cc by blast+
  have rd: "Dijkstra_round loc_n ws =
             (case collect (map (after_reduce loc_n g) ws) of
                Inl e \<Rightarrow> Inl e | Inr rs \<Rightarrow> Inr (all_continue rs))"
    by (simp add: Dijkstra_round_def g)
  have fin: "0 \<le> snd g \<and> snd g < n \<and>
              global_known loc_n ws ! nat (snd g) = 0 \<and>
              global_dist loc_n ws ! nat (snd g) = fst g \<and>
              (\<forall>v. 0 \<le> v \<and> v < n \<and> global_known loc_n ws ! nat v = 0 \<longrightarrow>
                   fst g < global_dist loc_n ws ! nat v \<or>
                   fst g = global_dist loc_n ws ! nat v \<and> snd g \<le> v) \<and>
              (\<forall>ws'. Dijkstra_round loc_n ws = Inr (Some ws') \<longrightarrow>
                   global_known loc_n ws' ! nat (snd g) = 1)"
    if ne: "snd g \<noteq> - 1"
  proof -
    from w ne obtain r u where r: "r < length ws" and u: "0 \<le> u" "u < loc_n"
      and sg: "snd g = u + int r * loc_n"
      and k: "loc_known (ws ! r) ! nat u = 0" and d: "loc_dist (ws ! r) ! nat u = fst g"
      and m: "\<And>r' j. r' < length ws \<and> 0 \<le> j \<and> j < loc_n \<and> loc_known (ws ! r') ! nat j = 0 \<Longrightarrow>
                fst g < loc_dist (ws ! r') ! nat j \<or>
                fst g = loc_dist (ws ! r') ! nat j \<and> snd g \<le> j + int r' * loc_n"
      unfolding winner_spec_def by blast
    from winner_range [OF wf w] ne have rng: "0 \<le> snd g" "snd g < n" by simp_all
    have gk: "global_known loc_n ws ! nat (snd g) = 0"
      using global_nth(3) [OF wf r u] k sg by simp
    have gdist: "global_dist loc_n ws ! nat (snd g) = fst g"
      using global_nth(1) [OF wf r u] d sg by simp
    have low: "fst g < global_dist loc_n ws ! nat v \<or>
               fst g = global_dist loc_n ws ! nat v \<and> snd g \<le> v"
      if v: "0 \<le> v \<and> v < n \<and> global_known loc_n ws ! nat v = 0" for v
    proof -
      from v obtain r' j where rj: "r' < length ws" "0 \<le> j" "j < loc_n" "v = j + int r' * loc_n"
        using global_split [OF wf, of v] by blast
      from v global_nth(3) [OF wf rj(1,2,3)] rj(4) have "loc_known (ws ! r') ! nat j = 0" by simp
      with m [of r' j] rj have "fst g < loc_dist (ws ! r') ! nat j \<or>
                fst g = loc_dist (ws ! r') ! nat j \<and> snd g \<le> j + int r' * loc_n" by simp
      with global_nth(1) [OF wf rj(1,2,3)] rj(4) show ?thesis by simp
    qed
    have after: "global_known loc_n ws' ! nat (snd g) = 1"
      if rs: "Dijkstra_round loc_n ws = Inr (Some ws')" for ws'
    proof -
      from Dijkstra_round_spec [OF wf g rng] rs have sp: "round_spec loc_n g ws ws'" by simp
      from round_spec_wf [OF wf sp] have wf': "wf_group n loc_n ws'" .
      from sp r have "relaxed loc_n (snd g) (fst g) (marked loc_n (snd g) (ws ! r)) (ws' ! r)"
        and l: "length ws' = length ws"
        unfolding round_spec_def by simp_all
      then have "loc_known (ws' ! r) = loc_known (marked loc_n (snd g) (ws ! r))"
        by (simp add: relaxed_def)
      with marked_known_owner [OF wf r u] sg have "loc_known (ws' ! r) ! nat u = 1" by simp
      moreover from r l have "r < length ws'" by simp
      from global_nth(3) [OF wf' this u] sg
      have "global_known loc_n ws' ! nat (snd g) = loc_known (ws' ! r) ! nat u" by simp
      ultimately show ?thesis by simp
    qed
    from rng gk gdist low after show ?thesis by blast
  qed
  from cs red mem le rd fin show ?thesis by blast
qed

section \<open>The set-up of \<open>main\<close>\<close>

lemma c_mul_Inr: "0 \<le> a * b \<Longrightarrow> a * b \<le> INT_MAX \<Longrightarrow> c_mul a b = Inr (a * b)"
  by (simp add: c_mul_def INT_MIN_def)

lemma c_mul_bound: "c_mul a b = Inr x \<Longrightarrow> INT_MIN \<le> a * b \<and> a * b \<le> INT_MAX"
  by (simp add: c_mul_def split: if_splits)

lemma block_size_bound:
  assumes r: "0 \<le> (r::int)" and ln: "0 \<le> loc_n" and n: "0 \<le> n" and b: "(r + 1) * loc_n \<le> n"
  shows "0 \<le> n * loc_n" and "n * loc_n \<le> n * n"
proof -
  show "0 \<le> n * loc_n" using n ln by simp
  have "1 * loc_n \<le> (r + 1) * loc_n" using r ln by (intro mult_right_mono) auto
  with b have "loc_n \<le> n" by simp
  then show "n * loc_n \<le> n * n" using n by (intro mult_left_mono) auto
qed

lemma Read_matrix_spec:
  assumes r: "0 \<le> r" and ln: "0 \<le> loc_n" and n: "0 \<le> n" and b: "(r + 1) * loc_n \<le> n"
    and len: "int (length mat) = n * n" and nn: "n * n \<le> INT_MAX"
  shows "Read_matrix mat n loc_n r =
      Inr (concat (map (\<lambda>i. map (\<lambda>j. mat ! nat (r * loc_n + i * n + j)) [0..loc_n - 1]) [0..n - 1]))"
proof -
  let ?g = "\<lambda>i j. mat ! nat (r * loc_n + i * n + j)"
  have "rd mat (r * loc_n + i * n + j) = Inr (?g i j)"
    if "i \<in> set [0..n - 1]" "j \<in> set [0..loc_n - 1]" for i j
  proof -
    from that have "0 \<le> i" "i \<le> n - 1" "0 \<le> j" "j \<le> loc_n - 1" by simp_all
    from scatter_index_bound [OF r b this] len show ?thesis by (simp add: rd_Inr)
  qed
  then have c: "collect (concat (map (\<lambda>i. map (\<lambda>j. rd mat (r * loc_n + i * n + j)) [0..loc_n - 1]) [0..n - 1])) =
      Inr (concat (map (\<lambda>i. map (?g i) [0..loc_n - 1]) [0..n - 1]))"
    by (rule collect_concat_rd)
  have "0 \<le> n * n" using n by simp
  from c_mul_Inr [OF this nn] have a: "(if r = 0 then c_mul n n else Inr 0) = Inr (if r = 0 then n * n else 0)"
    by simp
  from block_size_bound [OF r ln n b] nn have "c_mul n loc_n = Inr (n * loc_n)"
    by (intro c_mul_Inr) simp_all
  with a c show ?thesis unfolding Read_matrix_def by simp
qed

lemma upto_nth0: "0 \<le> i \<Longrightarrow> i \<le> m \<Longrightarrow> [0..m] ! nat i = i"
  by (simp add: nth_upto)

lemma Read_matrix_total:
  assumes r: "0 \<le> r" and ln: "0 \<le> loc_n" and n: "0 \<le> n" and b: "(r + 1) * loc_n \<le> n"
    and len: "int (length mat) = n * n" and nn: "n * n \<le> INT_MAX"
  shows "\<exists>blk. Read_matrix mat n loc_n r = Inr blk \<and> length blk = nat (n * loc_n) \<and>
           set blk \<subseteq> set mat \<and>
           (\<forall>i j. 0 \<le> i \<and> i < n \<and> 0 \<le> j \<and> j < loc_n \<longrightarrow>
               blk ! nat (i * loc_n + j) = mat ! nat (i * n + (r * loc_n + j)))"
proof -
  let ?g = "\<lambda>i j. mat ! nat (r * loc_n + i * n + j)"
  let ?rows = "map (\<lambda>i. map (?g i) [0..loc_n - 1]) [0..n - 1]"
  let ?blk = "concat ?rows"
  note sp = Read_matrix_spec [OF assms]
  have l: "length ?blk = nat (n * loc_n)"
    using ln n by (simp add: length_concat_const nat_mult_distrib)
  have sub: "set ?blk \<subseteq> set mat"
  proof
    fix x assume "x \<in> set ?blk"
    then obtain i j where ij: "i \<in> set [0..n - 1]" "j \<in> set [0..loc_n - 1]" "x = ?g i j" by auto
    then have "0 \<le> i" "i \<le> n - 1" "0 \<le> j" "j \<le> loc_n - 1" by simp_all
    from scatter_index_bound [OF r b this] len ij(3) show "x \<in> set mat" by simp
  qed
  have cell: "?blk ! nat (i * loc_n + j) = mat ! nat (i * n + (r * loc_n + j))"
    if ij: "0 \<le> i \<and> i < n \<and> 0 \<le> j \<and> j < loc_n" for i j
  proof -
    have all: "\<forall>a \<in> set ?rows. length a = nat loc_n" using ln by auto
    have ri: "nat i < length ?rows" using ij by simp
    have cj: "nat j < nat loc_n" using ij by simp
    have "nat (i * loc_n + j) = nat i * nat loc_n + nat j"
      using ij by (simp add: nat_add_distrib nat_mult_distrib)
    then have "?blk ! nat (i * loc_n + j) = ?rows ! nat i ! nat j"
      using concat_nth_block [OF all ri cj] by simp
    also have "\<dots> = ?g ([0..n - 1] ! nat i) ([0..loc_n - 1] ! nat j)" using ij by simp
    also have "\<dots> = ?g i j" using ij by (simp add: upto_nth0)
    also have "\<dots> = mat ! nat (i * n + (r * loc_n + j))" by (simp add: add.commute add.left_commute)
    finally show ?thesis .
  qed
  from sp l sub cell show ?thesis by blast
qed

lemma main_setup_spec:
  assumes p: "1 \<le> p" and n: "0 \<le> n" and nn: "n * n \<le> INT_MAX" and len: "int (length mat) = n * n"
  shows "main_setup False p n mat = Inl AllocFailed \<and>
         (\<exists>ws. main_setup True p n mat = Inr (n div p, ws) \<and>
               int (length ws) = p \<and> map my_rank ws = [0..p - 1] \<and>
               list_all (wf_alloc n (n div p)) ws \<and>
               (\<forall>r i j. 0 \<le> r \<and> r < p \<and> 0 \<le> i \<and> i < n \<and> 0 \<le> j \<and> j < n div p \<longrightarrow>
                   loc_mat (ws ! nat r) ! nat (i * (n div p) + j) =
                   mat ! nat (i * n + (r * (n div p) + j))) \<and>
               (\<forall>w \<in> set ws. set (loc_mat w) \<subseteq> set mat)) \<and>
         (n div p) * p \<le> n \<and> (n mod p \<noteq> 0 \<longleftrightarrow> (n div p) * p < n) \<and>
         (\<forall>c. 0 \<le> c \<and> c < (n div p) * p \<longrightarrow>
              (\<exists>r j. 0 \<le> r \<and> r < p \<and> 0 \<le> j \<and> j < n div p \<and> c = r * (n div p) + j)) \<and>
         (\<forall>r j. 0 \<le> r \<and> r < p \<and> 0 \<le> j \<and> j < n div p \<longrightarrow> r * (n div p) + j < (n div p) * p)"
proof (intro conjI)
  let ?l = "n div p"
  have d: "c_div n p = Inr ?l" using p n by (simp add: c_div_def sdiv_nonneg)
  have l0: "0 \<le> ?l" using p n by (simp add: pos_imp_zdiv_nonneg_iff)
  have eq: "?l * p = n - n mod p" by (simp add: minus_mod_eq_div_mult)
  have m0: "0 \<le> n mod p" using p by simp
  from eq m0 have lp: "?l * p \<le> n" by simp
  then show "?l * p \<le> n" .
  from eq m0 show "n mod p \<noteq> 0 \<longleftrightarrow> ?l * p < n" by auto
  have bnd: "(r + 1) * ?l \<le> n" if "0 \<le> r" "r < p" for r
  proof -
    from that l0 have "(r + 1) * ?l \<le> p * ?l" by (intro mult_right_mono) auto
    with lp show ?thesis by (simp add: mult.commute)
  qed
  have "(0 + 1) * ?l \<le> n" using bnd [of 0] p by simp
  from block_size_bound [OF _ l0 n this] nn have m: "c_mul n ?l = Inr (n * ?l)"
    by (intro c_mul_Inr) simp_all
  show "main_setup False p n mat = Inl AllocFailed" by (simp add: main_setup_def d m)
  show "\<forall>c. 0 \<le> c \<and> c < ?l * p \<longrightarrow>
              (\<exists>r j. 0 \<le> r \<and> r < p \<and> 0 \<le> j \<and> j < ?l \<and> c = r * ?l + j)"
  proof (intro allI impI)
    fix c assume c: "0 \<le> c \<and> c < ?l * p"
    then have lpos: "0 < ?l" using l0 p by (cases "?l = 0") auto
    have "0 \<le> c div ?l" using c lpos by (simp add: pos_imp_zdiv_nonneg_iff)
    moreover have "c div ?l < p"
    proof (rule ccontr)
      assume "\<not> c div ?l < p"
      then have "p * ?l \<le> (c div ?l) * ?l" using lpos by (intro mult_right_mono) auto
      also have "\<dots> = c - c mod ?l" by (simp add: minus_mod_eq_div_mult)
      also have "\<dots> \<le> c" using lpos by simp
      finally show False using c by (simp add: mult.commute)
    qed
    moreover have "0 \<le> c mod ?l" "c mod ?l < ?l" using lpos by simp_all
    moreover have "c = (c div ?l) * ?l + c mod ?l" by (simp add: div_mult_mod_eq)
    ultimately show "\<exists>r j. 0 \<le> r \<and> r < p \<and> 0 \<le> j \<and> j < ?l \<and> c = r * ?l + j" by blast
  qed
  show "\<forall>r j. 0 \<le> r \<and> r < p \<and> 0 \<le> j \<and> j < ?l \<longrightarrow> r * ?l + j < ?l * p"
  proof (intro allI impI)
    fix r j assume a: "0 \<le> r \<and> r < p \<and> 0 \<le> j \<and> j < ?l"
    then have "r * ?l + j < (r + 1) * ?l" by (simp add: algebra_simps)
    also have "\<dots> \<le> p * ?l" using a l0 by (intro mult_right_mono) auto
    finally show "r * ?l + j < ?l * p" by (simp add: mult.commute)
  qed
  let ?mk = "\<lambda>r. case Read_matrix mat n ?l r of
                       Inl e \<Rightarrow> Inl e
                     | Inr blk \<Rightarrow>
                         Inr \<lparr>my_rank = r, loc_mat = blk,
                              loc_dist = replicate (nat ?l) 0,
                              loc_pred = replicate (nat ?l) 0,
                              loc_known = []\<rparr>"
  have mk: "\<exists>w. ?mk r = Inr w \<and> my_rank w = r \<and> wf_alloc n ?l w \<and> set (loc_mat w) \<subseteq> set mat \<and>
           (\<forall>i j. 0 \<le> i \<and> i < n \<and> 0 \<le> j \<and> j < ?l \<longrightarrow>
               loc_mat w ! nat (i * ?l + j) = mat ! nat (i * n + (r * ?l + j)))"
    if "0 \<le> r" "r < p" for r
  proof -
    from Read_matrix_total [OF that(1) l0 n bnd [OF that] len nn] obtain blk where
      "Read_matrix mat n ?l r = Inr blk" "length blk = nat (n * ?l)" "set blk \<subseteq> set mat"
      "\<forall>i j. 0 \<le> i \<and> i < n \<and> 0 \<le> j \<and> j < ?l \<longrightarrow>
               blk ! nat (i * ?l + j) = mat ! nat (i * n + (r * ?l + j))" by blast
    then show ?thesis by (simp add: wf_alloc_def)
  qed
  have "\<exists>y. ?mk r = Inr y" if "r \<in> set [0..p - 1]" for r
  proof -
    from that have "0 \<le> r" "r < p" by simp_all
    from mk [OF this] show ?thesis by blast
  qed
  then obtain ws where c: "collect (map ?mk [0..p - 1]) = Inr ws"
    using collect_map_total [of "[0..p - 1]" ?mk] by blast
  from collect_map_nth [OF c] have lw: "length ws = length [0..p - 1]"
    and e: "\<And>i. i < length [0..p - 1] \<Longrightarrow> ?mk ([0..p - 1] ! i) = Inr (ws ! i)" by blast+
  have w: "my_rank (ws ! nat r) = r \<and> wf_alloc n ?l (ws ! nat r) \<and>
           set (loc_mat (ws ! nat r)) \<subseteq> set mat \<and>
           (\<forall>i j. 0 \<le> i \<and> i < n \<and> 0 \<le> j \<and> j < ?l \<longrightarrow>
               loc_mat (ws ! nat r) ! nat (i * ?l + j) = mat ! nat (i * n + (r * ?l + j)))"
    if r: "0 \<le> r" "r < p" for r
  proof -
    from r have i: "nat r < length [0..p - 1]" by simp
    from r have ri: "[0..p - 1] ! nat r = r" by (simp add: upto_nth0)
    from e [OF i] have "?mk r = Inr (ws ! nat r)" unfolding ri .
    with mk [OF r] show ?thesis by auto
  qed
  have wi: "my_rank (ws ! i) = [0..p - 1] ! i \<and> wf_alloc n ?l (ws ! i) \<and>
            set (loc_mat (ws ! i)) \<subseteq> set mat" if "i < length ws" for i
  proof -
    from that lw have "0 \<le> int i" "int i < p" by simp_all
    from w [OF this] that lw show ?thesis by (simp add: nth_upto)
  qed
  have "map my_rank ws = [0..p - 1]"
    using lw wi by (auto simp: list_eq_iff_nth_eq)
  moreover have "list_all (wf_alloc n ?l) ws" using wi by (simp add: list_all_length)
  moreover have "\<forall>w \<in> set ws. set (loc_mat w) \<subseteq> set mat"
  proof
    fix w assume "w \<in> set ws"
    then obtain i where "i < length ws" "w = ws ! i" by (auto simp: in_set_conv_nth)
    with wi [of i] show "set (loc_mat w) \<subseteq> set mat" by simp
  qed
  moreover have "int (length ws) = p" using lw p by simp
  moreover have "main_setup True p n mat = Inr (?l, ws)"
    using c by (simp add: main_setup_def d m)
  moreover have "\<forall>r i j. 0 \<le> r \<and> r < p \<and> 0 \<le> i \<and> i < n \<and> 0 \<le> j \<and> j < ?l \<longrightarrow>
                   loc_mat (ws ! nat r) ! nat (i * ?l + j) = mat ! nat (i * n + (r * ?l + j))"
    using w by blast
  ultimately show "\<exists>ws. main_setup True p n mat = Inr (?l, ws) \<and>
               int (length ws) = p \<and> map my_rank ws = [0..p - 1] \<and>
               list_all (wf_alloc n ?l) ws \<and>
               (\<forall>r i j. 0 \<le> r \<and> r < p \<and> 0 \<le> i \<and> i < n \<and> 0 \<le> j \<and> j < ?l \<longrightarrow>
                   loc_mat (ws ! nat r) ! nat (i * ?l + j) = mat ! nat (i * n + (r * ?l + j))) \<and>
               (\<forall>w \<in> set ws. set (loc_mat w) \<subseteq> set mat)" by blast
qed

lemma main_setup_size_bound:
  assumes p: "1 \<le> p" and s: "main_setup True p n mat = Inr x"
  shows "INT_MIN \<le> n * n \<and> n * n \<le> INT_MAX"
proof -
  from s obtain loc_n ws where
    c: "collect (map (\<lambda>r. case Read_matrix mat n loc_n r of
                       Inl e \<Rightarrow> Inl e
                     | Inr blk \<Rightarrow>
                         Inr \<lparr>my_rank = r, loc_mat = blk,
                              loc_dist = replicate (nat loc_n) 0,
                              loc_pred = replicate (nat loc_n) 0,
                              loc_known = []\<rparr>) [0..p - 1]) = Inr ws"
    unfolding main_setup_def by (auto split: sum.splits if_splits)
  have "0 < length [0..p - 1]" using p by simp
  from collect_map_nth [OF c, THEN conjunct2, THEN spec, THEN mp, OF this] p
  obtain blk where "Read_matrix mat n loc_n 0 = Inr blk"
    by (auto simp: nth_upto split: sum.splits)
  then obtain y where "c_mul n n = Inr y"
    unfolding Read_matrix_def by (auto split: sum.splits)
  then show ?thesis by (rule c_mul_bound)
qed

lemma main_setup_overflow:
  "main_setup alloc_ok 1 65536 mat = Inl (Undefined Overflow)"
  by (simp add: main_setup_def c_div_def c_mul_def INT_MIN_def INT_MAX_def)

lemma main_setup_wf_start:
  assumes p: "1 \<le> p" and n: "1 \<le> n" and len: "int (length mat) = n * n" and dv: "n mod p = 0"
    and s: "main_setup True p n mat = Inr (loc_n, ws)"
  shows "wf_start n loc_n ws"
proof -
  from n have n0: "0 \<le> n" by simp
  from main_setup_size_bound [OF p s] have nn: "n * n \<le> INT_MAX" by simp
  from main_setup_spec [OF p n0 nn len] s have l: "loc_n = n div p" and lw: "int (length ws) = p"
    and rk: "map my_rank ws = [0..p - 1]" and wa: "list_all (wf_alloc n loc_n) ws" by auto
  have "p * (n div p) + n mod p = n" by (rule mult_div_mod_eq)
  with dv have e: "n = p * loc_n" unfolding l by simp
  have "0 < loc_n"
  proof (rule ccontr)
    assume "\<not> 0 < loc_n"
    then have "p * loc_n \<le> 0" using p by (simp add: mult_le_0_iff)
    with e n show False by simp
  qed
  moreover have "ws \<noteq> []" using lw p by auto
  ultimately have "wf_ranks n loc_n ws" using e lw rk by (simp add: wf_ranks_def)
  with wa show ?thesis by (simp add: wf_start_def)
qed

lemma main_setup_weights:
  assumes p: "1 \<le> p" and n: "0 \<le> n" and len: "int (length mat) = n * n"
    and ir: "in_range mat" and s: "main_setup True p n mat = Inr (loc_n, ws)"
  shows "weights_ok ws"
proof -
  from main_setup_size_bound [OF p s] have nn: "n * n \<le> INT_MAX" by simp
  from main_setup_spec [OF p n nn len] s have "\<forall>w \<in> set ws. set (loc_mat w) \<subseteq> set mat" by auto
  with ir show ?thesis by (auto simp: weights_ok_def list_all_iff intro: in_range_subset)
qed

lemma main_returns_in_range:
  assumes p: "1 \<le> p" and n: "1 \<le> n" and nn: "n * n \<le> INT_MAX" and dv: "n mod p = 0"
    and len: "int (length mat) = n * n" and ir: "in_range mat"
  shows "\<exists>gd gp. main True p n mat = Inr (gd, gp) \<and> int (length gd) = n \<and> in_range gd"
proof -
  from n have n0: "0 \<le> n" by simp
  from main_setup_spec [OF p n0 nn len] obtain ws where
    s: "main_setup True p n mat = Inr (n div p, ws)" by blast
  from main_setup_wf_start [OF p n len dv s] have wf: "wf_start n (n div p) ws" .
  from main_setup_weights [OF p n0 len ir s] have wo: "weights_ok ws" .
  from Init_in_range [OF wf wo] obtain ws0 where
    c: "collect (map (\<lambda>w. Dijkstra_Init (n div p) (w\<lparr>loc_known := replicate (nat (n div p)) 0\<rparr>)) ws) = Inr ws0"
    and i: "wf_group n (n div p) ws0" "weights_ok ws0" "dists_ok ws0" by blast
  from loop_in_range [OF i, of 0] c obtain ws' where
    r: "Dijkstra (n div p) n ws = Inr ws'" and w': "wf_group n (n div p) ws'" and d': "dists_ok ws'"
    by (auto simp: Dijkstra_def)
  have "main True p n mat = Inr (global_dist (n div p) ws', global_pred (n div p) ws')"
    by (simp add: main_def s r global_dist_def global_pred_def)
  with global_length(1) [OF w'] gather_in_range [OF d'] show ?thesis by blast
qed

lemma main_size_overflow:
  assumes p: "1 \<le> p" and n: "0 \<le> n" and nn: "INT_MAX < n * n"
  shows "main True p n mat = Inl (Undefined Overflow)"
proof -
  let ?l = "n div p"
  let ?mk = "\<lambda>r. case Read_matrix mat n ?l r of
                       Inl e \<Rightarrow> Inl e
                     | Inr blk \<Rightarrow>
                         Inr \<lparr>my_rank = r, loc_mat = blk,
                              loc_dist = replicate (nat ?l) 0,
                              loc_pred = replicate (nat ?l) 0,
                              loc_known = []\<rparr>"
  have d: "c_div n p = Inr ?l" using p n by (simp add: c_div_def sdiv_nonneg)
  have o: "c_mul n n = Inl Overflow" using nn by (simp add: c_mul_def)
  have r0: "Read_matrix mat n ?l 0 = Inl Overflow" by (simp add: Read_matrix_def o)
  have u: "[0..p - 1] = 0 # [1..p - 1]" using p by (simp add: upto_rec1)
  have c: "collect (map ?mk [0..p - 1]) = Inl Overflow" unfolding u by (simp add: r0)
  have "main_setup True p n mat = Inl (Undefined Overflow)"
  proof (cases "c_mul n ?l")
    case (Inl e)
    then have "e = Overflow" by (simp add: c_mul_def split: if_splits)
    with Inl show ?thesis by (simp add: main_setup_def d)
  next
    case (Inr x)
    with c show ?thesis by (simp add: main_setup_def d)
  qed
  then show ?thesis by (simp add: main_def)
qed

section \<open>The scenario, evaluated\<close>

lemma scenario_group_wf: "wf_group 4 2 scenario_group"
  by code_simp

lemma scenario_start_wf: "wf_start 4 2 scenario_start"
  by code_simp

lemma scenario_weights_ok: "weights_ok scenario_start"
  by code_simp

lemma scenario_setup: "main_setup True 2 4 scenario = Inr (2, scenario_start)"
  by code_simp

lemma scenario_init:
  "collect (map (\<lambda>w. Dijkstra_Init 2 (w\<lparr>loc_known := replicate (nat 2) 0\<rparr>)) scenario_start) =
     Inr scenario_group"
  by code_simp

lemma scenario_first_round: "Dijkstra_round 2 scenario_group = Inr (Some scenario_round)"
  by code_simp

lemma scenario_loop: "Dijkstra_loop 2 4 0 scenario_group = Inr scenario_final"
  by code_simp

lemma scenario_run: "Dijkstra 2 4 scenario_start = Inr scenario_final"
  by code_simp



lemma scenario_main_two: "main True 2 4 scenario = Inr ([0, 1, 3, 1000000], [0, 0, 1, 0])"
  by code_simp

section \<open>The claims\<close>

text \<open>
  C1 (the code departs from the claim). The claim: for every \<open>p\<close> dividing \<open>n\<close> the run
  yields the distances of sequential Dijkstra, and on the scenario distances
  \<open>[0, 1, 3, 4]\<close> with predecessors \<open>[-, 0, 1, 2]\<close>. With one process the run does. With two
  processes vertex 3 keeps the distance \<open>INFINITY\<close> and predecessor \<open>0\<close>, and with four
  processes vertex 2 keeps distance \<open>4\<close> as well: line 300 marks
  \<open>loc_known[glbl_min[1] % loc_n]\<close> in every process, so a vertex that was never selected
  is skipped by all later relaxations.
\<close>

theorem scenario_depends_on_process_count:
  "main True 1 4 scenario = Inr ([0, 1, 3, 4], [0, 0, 1, 2]) \<and>
   main True 2 4 scenario = Inr ([0, 1, 3, 1000000], [0, 0, 1, 0]) \<and>
   main True 4 4 scenario = Inr ([0, 1, 4, 1000000], [0, 0, 0, 0])"
  by code_simp

text \<open>
  C2 (the code departs from the claim). The claim: only the process that owns the winning
  vertex changes its \<open>known\<close> array. In the first round of the scenario with two processes
  the winner is vertex 1, owned by rank 0, and rank 1 sets its own \<open>loc_known[1]\<close>
  (vertex 3) all the same.
\<close>

theorem every_process_marks_known:
  "glbl_min_of 2 scenario_group = Inr (Some (1, 1)) \<and>
   map loc_known scenario_group = [[1, 0], [0, 0]] \<and>
   Dijkstra_round 2 scenario_group = Inr (Some scenario_round) \<and>
   map loc_known scenario_round = [[1, 1], [0, 1]]"
  by code_simp

text \<open>
  C3 (the code departs from the claim). The claim: a completed round makes exactly one
  new vertex known. The first round of the scenario with two processes takes the number of
  vertices marked known from one to three.
\<close>

theorem round_marks_two_vertices:
  "length (filter (\<lambda>k. k \<noteq> 0) (global_known 2 scenario_group)) = 1 \<and>
   Dijkstra_round 2 scenario_group = Inr (Some scenario_round) \<and>
   length (filter (\<lambda>k. k \<noteq> 0) (global_known 2 scenario_round)) = 3"
  by code_simp

text \<open>
  C4 (amended). The claim: when \<open>p\<close> does not divide \<open>n\<close> the program stops with a
  configuration error before it distributes the matrix. The program has no such test
  (its header states divisibility as an assumption): with \<open>n = 5\<close> and \<open>p = 2\<close> it goes on
  with \<open>loc_n = 2\<close>, rank 0 receives columns 0 and 1, rank 1 columns 2 and 3, column 4
  goes to nobody, and the run returns four of the five vertices.
\<close>

theorem no_divisibility_check_counterexample:
  "\<not> (2::int) dvd 5 \<and>
   main_setup True 2 5 five_by_five =
     Inr (2, [\<lparr>my_rank = 0, loc_mat = [0, 1, 5, 6, 10, 11, 15, 16, 20, 21],
               loc_dist = [0, 0], loc_pred = [0, 0], loc_known = []\<rparr>,
              \<lparr>my_rank = 1, loc_mat = [2, 3, 7, 8, 12, 13, 17, 18, 22, 23],
               loc_dist = [0, 0], loc_pred = [0, 0], loc_known = []\<rparr>]) \<and>
   main True 2 5 five_by_five = Inr ([0, 1, 2, 3], [0, 0, 0, 0])"
  by code_simp

text \<open>
  C4 as amended: for every \<open>p \<ge> 1\<close> and \<open>n \<ge> 0\<close> with \<open>n * n\<close> in the range of \<open>int\<close>,
  whether or not \<open>p\<close> divides \<open>n\<close>, the set-up of \<open>main\<close> stops only when an allocation
  fails; otherwise it takes \<open>loc_n = n / p\<close> rounded down and hands rank \<open>r\<close>, for each of
  the \<open>p\<close> ranks, the block of the columns \<open>r * loc_n\<close> to \<open>r * loc_n + loc_n - 1\<close>: cell
  \<open>(i, j)\<close> of the block is cell \<open>(i, r * loc_n + j)\<close> of the matrix. The columns handed
  out are exactly those below \<open>p * loc_n\<close>, which is below \<open>n\<close> exactly when \<open>p\<close> does not
  divide \<open>n\<close>.
\<close>

theorem main_setup_truncates:
  assumes p: "1 \<le> p" and n: "0 \<le> n" and nn: "n * n \<le> INT_MAX" and len: "int (length mat) = n * n"
  shows "main_setup False p n mat = Inl AllocFailed \<and>
         (\<exists>ws. main_setup True p n mat = Inr (n div p, ws) \<and>
               int (length ws) = p \<and> map my_rank ws = [0..p - 1] \<and>
               list_all (wf_alloc n (n div p)) ws \<and>
               (\<forall>r i j. 0 \<le> r \<and> r < p \<and> 0 \<le> i \<and> i < n \<and> 0 \<le> j \<and> j < n div p \<longrightarrow>
                   loc_mat (ws ! nat r) ! nat (i * (n div p) + j) =
                   mat ! nat (i * n + (r * (n div p) + j))) \<and>
               (\<forall>w \<in> set ws. set (loc_mat w) \<subseteq> set mat)) \<and>
         (n div p) * p \<le> n \<and> (n mod p \<noteq> 0 \<longleftrightarrow> (n div p) * p < n) \<and>
         (\<forall>c. 0 \<le> c \<and> c < (n div p) * p \<longrightarrow>
              (\<exists>r j. 0 \<le> r \<and> r < p \<and> 0 \<le> j \<and> j < n div p \<and> c = r * (n div p) + j)) \<and>
         (\<forall>r j. 0 \<le> r \<and> r < p \<and> 0 \<le> j \<and> j < n div p \<longrightarrow> r * (n div p) + j < (n div p) * p)"
  using main_setup_spec [OF assms] .

theorem main_setup_truncates_witness:
  "(1::int) \<le> 2 \<and> (0::int) \<le> 5 \<and> (5::int) * 5 \<le> INT_MAX \<and> int (length five_by_five) = 5 * 5 \<and>
   (\<exists>ws. main_setup True 2 5 five_by_five = Inr (5 div 2, ws) \<and> int (length ws) = 2 \<and>
         loc_mat (ws ! nat 1) ! nat (3 * (5 div 2) + 1) = five_by_five ! nat (3 * 5 + (1 * (5 div 2) + 1))) \<and>
   (5 div 2) * 2 < (5::int)"
proof -
  have h: "(1::int) \<le> 2" "(0::int) \<le> 5" "(5::int) * 5 \<le> INT_MAX" "int (length five_by_five) = 5 * 5"
    by (simp_all add: INT_MAX_def five_by_five_def)
  from main_setup_truncates [OF h] obtain ws where
    s: "main_setup True 2 5 five_by_five = Inr (5 div 2, ws)" and l: "int (length ws) = 2"
    and c: "\<forall>r i j. 0 \<le> r \<and> r < 2 \<and> 0 \<le> i \<and> i < 5 \<and> 0 \<le> j \<and> j < 5 div 2 \<longrightarrow>
                   loc_mat (ws ! nat r) ! nat (i * (5 div 2) + j) =
                   five_by_five ! nat (i * 5 + (r * (5 div 2) + j))"
    by blast
  from c [rule_format, of 1 3 1]
  have "loc_mat (ws ! nat 1) ! nat (3 * (5 div 2) + 1) = five_by_five ! nat (3 * 5 + (1 * (5 div 2) + 1))"
    by simp
  with s l h show ?thesis by simp
qed




text \<open>
  C6 (the code departs from the claim). The claim: of two vertices at the same least
  distance the one of smaller index is finalized first, whatever \<open>p\<close> is. Vertices 1, 2
  and 3 of \<open>tie_matrix\<close> are all at distance \<open>5\<close>. The reduction does return the pair of
  smaller index, \<open>(5, 1)\<close>, to every process. With one process the vertices are then marked
  known in the order 1, 2. With two processes the first round marks vertex 1 and, in
  rank 1, vertex 3 as well, while vertex 2 of the same distance and smaller index is still
  unknown: line 300 marks \<open>loc_known[glbl_min[1] % loc_n]\<close> in every process.
\<close>

theorem tied_vertex_marked_out_of_order:
  "main_setup True 2 4 tie_matrix = Inr (2, tie_start) \<and>
   collect (map (\<lambda>w. Dijkstra_Init 2 (w\<lparr>loc_known := replicate (nat 2) 0\<rparr>)) tie_start) =
     Inr tie_group \<and>
   global_dist 2 tie_group = [0, 5, 5, 5] \<and>
   global_known 2 tie_group = [1, 0, 0, 0] \<and>
   collect (map (my_min 2) tie_group) = Inr [(5, 1), (5, 2)] \<and>
   glbl_min_of 2 tie_group = Inr (Some (5, 1)) \<and>
   Dijkstra_round 2 tie_group = Inr (Some tie_round) \<and>
   global_dist 2 tie_round = [0, 5, 5, 5] \<and>
   global_known 2 tie_round = [1, 1, 0, 1] \<and>
   main_setup True 1 4 tie_matrix = Inr (4, tie_single_start) \<and>
   collect (map (\<lambda>w. Dijkstra_Init 4 (w\<lparr>loc_known := replicate (nat 4) 0\<rparr>)) tie_single_start) =
     Inr tie_single \<and>
   global_dist 4 tie_single = [0, 5, 5, 5] \<and>
   global_known 4 tie_single = [1, 0, 0, 0] \<and>
   glbl_min_of 4 tie_single = Inr (Some (5, 1)) \<and>
   Dijkstra_round 4 tie_single = Inr (Some tie_single_round) \<and>
   global_known 4 tie_single_round = [1, 1, 0, 0] \<and>
   glbl_min_of 4 tie_single_round = Inr (Some (5, 2)) \<and>
   Dijkstra_round 4 tie_single_round = Inr (Some tie_single_second) \<and>
   global_known 4 tie_single_second = [1, 1, 1, 0]"
  by code_simp

text \<open>
  C7. For every process \<open>r\<close> and local vertex \<open>j\<close>: over one completed round, and from
  any state of the driver loop to the state in which the loop ends, \<open>loc_dist[j]\<close> does not
  increase, and if \<open>loc_known[j]\<close> is set it stays set and \<open>loc_dist[j]\<close> keeps its value.
\<close>

theorem dist_never_increases:
  assumes wf: "wf_group n loc_n ws" and r: "r < length ws" and j: "0 \<le> j" "j < loc_n"
  shows "(\<forall>ws'. Dijkstra_round loc_n ws = Inr (Some ws') \<longrightarrow>
            loc_dist (ws' ! r) ! nat j \<le> loc_dist (ws ! r) ! nat j \<and>
            (loc_known (ws ! r) ! nat j \<noteq> 0 \<longrightarrow>
               loc_known (ws' ! r) ! nat j \<noteq> 0 \<and>
               loc_dist (ws' ! r) ! nat j = loc_dist (ws ! r) ! nat j)) \<and>
         (\<forall>i ws'. Dijkstra_loop loc_n n i ws = Inr ws' \<longrightarrow>
            loc_dist (ws' ! r) ! nat j \<le> loc_dist (ws ! r) ! nat j \<and>
            (loc_known (ws ! r) ! nat j \<noteq> 0 \<longrightarrow>
               loc_known (ws' ! r) ! nat j \<noteq> 0 \<and>
               loc_dist (ws' ! r) ! nat j = loc_dist (ws ! r) ! nat j))"
  using round_no_increase(1) [OF wf _ r j] loop_no_increase [OF wf _ r j]
  unfolding no_increase_def by blast

theorem dist_never_increases_witness:
  "wf_group 4 2 scenario_group \<and> (1::nat) < length scenario_group \<and> (0::int) \<le> 0 \<and> (0::int) < 2 \<and>
   Dijkstra_round 2 scenario_group = Inr (Some scenario_round) \<and>
   loc_dist (scenario_round ! 1) ! nat 0 \<le> loc_dist (scenario_group ! 1) ! nat 0 \<and>
   Dijkstra_loop 2 4 0 scenario_group = Inr scenario_final \<and>
   loc_dist (scenario_final ! 1) ! nat 0 \<le> loc_dist (scenario_group ! 1) ! nat 0 \<and>
   (0::nat) < length scenario_group \<and>
   loc_known (scenario_group ! 0) ! nat 0 \<noteq> 0 \<and>
   loc_known (scenario_final ! 0) ! nat 0 \<noteq> 0 \<and>
   loc_dist (scenario_final ! 0) ! nat 0 = loc_dist (scenario_group ! 0) ! nat 0"
proof -
  have l: "(1::nat) < length scenario_group" "(0::nat) < length scenario_group"
    by (simp_all add: scenario_group_def)
  have k: "loc_known (scenario_group ! 0) ! nat 0 \<noteq> 0" by (simp add: scenario_group_def)
  from dist_never_increases [OF scenario_group_wf l(1), of 0] scenario_first_round scenario_loop
  have "loc_dist (scenario_round ! 1) ! nat 0 \<le> loc_dist (scenario_group ! 1) ! nat 0"
    "loc_dist (scenario_final ! 1) ! nat 0 \<le> loc_dist (scenario_group ! 1) ! nat 0"
    by simp_all
  moreover from dist_never_increases [OF scenario_group_wf l(2), of 0] scenario_loop k
  have "loc_known (scenario_final ! 0) ! nat 0 \<noteq> 0 \<and>
        loc_dist (scenario_final ! 0) ! nat 0 = loc_dist (scenario_group ! 0) ! nat 0"
    by simp
  ultimately show ?thesis using scenario_group_wf l k scenario_first_round scenario_loop by simp
qed

text \<open>
  C8. With every weight between \<open>0\<close> and \<open>INFINITY = 1000000\<close>: \<open>Dijkstra_Init\<close> leaves every
  distance in that range; in every round from a state with distances in that range the
  reduced distance of a winner is at least \<open>0\<close> and below \<open>INFINITY\<close>, every sum of it and a
  weight is between \<open>0\<close> and \<open>2000000\<close> and does not overflow, the round returns without a
  fault and leaves every distance in the range; relaxing over an \<open>INFINITY\<close> edge leaves
  the process unchanged; every single step of the relaxation loop keeps the distances in
  the range; \<open>Dijkstra\<close> returns with every distance in the range; and for every \<open>p\<close> that
  divides \<open>n\<close>, \<open>main\<close> on a matrix with such weights arrives at a gathered distance
  array with every entry in the range when \<open>n * n\<close> is in the range of \<open>int\<close>, and
  otherwise overflows in the sizes of lines 69 and 223, before any distance exists.
\<close>

theorem distances_stay_in_range:
  assumes wf: "wf_start n loc_n ws" and wo: "weights_ok ws"
  shows "(\<exists>ws0. collect (map (\<lambda>w. Dijkstra_Init loc_n (w\<lparr>loc_known := replicate (nat loc_n) 0\<rparr>)) ws) = Inr ws0 \<and>
            wf_group n loc_n ws0 \<and> weights_ok ws0 \<and> dists_ok ws0) \<and>
         (\<forall>ws1. wf_group n loc_n ws1 \<and> weights_ok ws1 \<and> dists_ok ws1 \<longrightarrow>
            (\<exists>g res. glbl_min_of loc_n ws1 = Inr (Some g) \<and> Dijkstra_round loc_n ws1 = Inr res \<and>
               (snd g \<noteq> - 1 \<longrightarrow> 0 \<le> fst g \<and> fst g < INFINITY \<and>
                  (\<forall>w \<in> set ws1. \<forall>x \<in> set (loc_mat w).
                      0 \<le> fst g + x \<and> fst g + x \<le> 2000000 \<and> c_add (fst g) x = Inr (fst g + x))) \<and>
               (\<forall>ws2. res = Some ws2 \<longrightarrow> wf_group n loc_n ws2 \<and> weights_ok ws2 \<and> dists_ok ws2))) \<and>
         (\<forall>w u d v. wf_worker n loc_n w \<and> in_range (loc_dist w) \<and> 0 \<le> u \<and> u < n \<and>
              0 \<le> v \<and> v < loc_n \<and> 0 \<le> d \<and> d < INFINITY \<and>
              loc_mat w ! nat (u * loc_n + v) = INFINITY \<longrightarrow>
              relax_body loc_n u d v w = Inr w) \<and>
         (\<forall>w u d v w'. wf_worker n loc_n w \<and> in_range (loc_mat w) \<and> in_range (loc_dist w) \<and>
              0 \<le> u \<and> u < n \<and> 0 \<le> v \<and> v < loc_n \<and> 0 \<le> d \<and>
              relax_body loc_n u d v w = Inr w' \<longrightarrow> in_range (loc_dist w')) \<and>
         (\<exists>ws'. Dijkstra loc_n n ws = Inr ws' \<and> wf_group n loc_n ws' \<and> dists_ok ws') \<and>
         (\<forall>p mat. 1 \<le> p \<and> n mod p = 0 \<and> int (length mat) = n * n \<and> in_range mat \<longrightarrow>
            (if n * n \<le> INT_MAX
             then \<exists>gd gp. main True p n mat = Inr (gd, gp) \<and> int (length gd) = n \<and> in_range gd
             else main True p n mat = Inl (Undefined Overflow)))"
proof (intro conjI)
  show "\<forall>p mat. 1 \<le> p \<and> n mod p = 0 \<and> int (length mat) = n * n \<and> in_range mat \<longrightarrow>
            (if n * n \<le> INT_MAX
             then \<exists>gd gp. main True p n mat = Inr (gd, gp) \<and> int (length gd) = n \<and> in_range gd
             else main True p n mat = Inl (Undefined Overflow))"
  proof (intro allI impI)
    fix p mat
    assume a: "1 \<le> p \<and> n mod p = 0 \<and> int (length mat) = n * n \<and> in_range mat"
    from wf_start_facts(4) [OF wf] have n: "1 \<le> n" .
    show "if n * n \<le> INT_MAX
          then \<exists>gd gp. main True p n mat = Inr (gd, gp) \<and> int (length gd) = n \<and> in_range gd
          else main True p n mat = Inl (Undefined Overflow)"
    proof (cases "n * n \<le> INT_MAX")
      case True
      with a n have "\<exists>gd gp. main True p n mat = Inr (gd, gp) \<and> int (length gd) = n \<and> in_range gd"
        by (intro main_returns_in_range) simp_all
      with True show ?thesis by simp
    next
      case False
      with a n have "main True p n mat = Inl (Undefined Overflow)"
        by (intro main_size_overflow) simp_all
      with False show ?thesis by simp
    qed
  qed
  show "\<forall>w u d v w'. wf_worker n loc_n w \<and> in_range (loc_mat w) \<and> in_range (loc_dist w) \<and>
              0 \<le> u \<and> u < n \<and> 0 \<le> v \<and> v < loc_n \<and> 0 \<le> d \<and>
              relax_body loc_n u d v w = Inr w' \<longrightarrow> in_range (loc_dist w')"
    using relax_body_in_range by blast
  from Init_in_range [OF wf wo] obtain ws0 where
    c: "collect (map (\<lambda>w. Dijkstra_Init loc_n (w\<lparr>loc_known := replicate (nat loc_n) 0\<rparr>)) ws) = Inr ws0"
    and i: "wf_group n loc_n ws0" "weights_ok ws0" "dists_ok ws0" by blast
  from c i show "\<exists>ws0. collect (map (\<lambda>w. Dijkstra_Init loc_n (w\<lparr>loc_known := replicate (nat loc_n) 0\<rparr>)) ws) = Inr ws0 \<and>
            wf_group n loc_n ws0 \<and> weights_ok ws0 \<and> dists_ok ws0" by blast
  from loop_in_range [OF i, of 0] c
  show "\<exists>ws'. Dijkstra loc_n n ws = Inr ws' \<and> wf_group n loc_n ws' \<and> dists_ok ws'"
    by (simp add: Dijkstra_def)
  show "\<forall>ws1. wf_group n loc_n ws1 \<and> weights_ok ws1 \<and> dists_ok ws1 \<longrightarrow>
            (\<exists>g res. glbl_min_of loc_n ws1 = Inr (Some g) \<and> Dijkstra_round loc_n ws1 = Inr res \<and>
               (snd g \<noteq> - 1 \<longrightarrow> 0 \<le> fst g \<and> fst g < INFINITY \<and>
                  (\<forall>w \<in> set ws1. \<forall>x \<in> set (loc_mat w).
                      0 \<le> fst g + x \<and> fst g + x \<le> 2000000 \<and> c_add (fst g) x = Inr (fst g + x))) \<and>
               (\<forall>ws2. res = Some ws2 \<longrightarrow> wf_group n loc_n ws2 \<and> weights_ok ws2 \<and> dists_ok ws2))"
    using round_in_range by blast
  show "\<forall>w u d v. wf_worker n loc_n w \<and> in_range (loc_dist w) \<and> 0 \<le> u \<and> u < n \<and>
              0 \<le> v \<and> v < loc_n \<and> 0 \<le> d \<and> d < INFINITY \<and>
              loc_mat w ! nat (u * loc_n + v) = INFINITY \<longrightarrow>
              relax_body loc_n u d v w = Inr w"
    using sentinel_edge_no_update by blast
qed

theorem distances_stay_in_range_witness:
  "wf_start 4 2 scenario_start \<and> weights_ok scenario_start \<and>
   (\<exists>ws'. Dijkstra 2 4 scenario_start = Inr ws' \<and> wf_group 4 2 ws' \<and> dists_ok ws')"
  using distances_stay_in_range [OF scenario_start_wf scenario_weights_ok]
    scenario_start_wf scenario_weights_ok by blast

text \<open>
  C9. In a well-formed group the reduced index is \<open>-1\<close> or a vertex in \<open>[0, n)\<close>. When it
  is \<open>-1\<close> every process leaves the loop before it writes \<open>loc_known\<close> or reads the matrix.
  Otherwise \<open>loc_u = glbl_min[1] % loc_n\<close> is in \<open>[0, loc_n)\<close> and every
  \<open>glbl_u * loc_n + loc_v\<close> is in \<open>[0, n * loc_n)\<close>. No round and no run of the driver loop
  reads or writes outside an array or divides by zero, and a round leaves the group
  well-formed.
\<close>

theorem driver_loop_accesses_in_bounds:
  assumes wf: "wf_group n loc_n ws"
  shows "(\<exists>g. glbl_min_of loc_n ws = Inr (Some g) \<and>
            (snd g = - 1 \<or> 0 \<le> snd g \<and> snd g < n) \<and>
            (snd g = - 1 \<longrightarrow>
               Dijkstra_round loc_n ws = Inr None \<and> (\<forall>w. after_reduce loc_n g w = Inr None)) \<and>
            (snd g \<noteq> - 1 \<longrightarrow>
               c_mod (snd g) loc_n = Inr (snd g mod loc_n) \<and>
               0 \<le> snd g mod loc_n \<and> snd g mod loc_n < loc_n \<and>
               (\<forall>loc_v. 0 \<le> loc_v \<and> loc_v < loc_n \<longrightarrow>
                   0 \<le> snd g * loc_n + loc_v \<and> snd g * loc_n + loc_v < n * loc_n))) \<and>
         Dijkstra_round loc_n ws \<noteq> Inl OutOfBounds \<and> Dijkstra_round loc_n ws \<noteq> Inl DivByZero \<and>
         (\<forall>ws'. Dijkstra_round loc_n ws = Inr (Some ws') \<longrightarrow> wf_group n loc_n ws') \<and>
         (\<forall>i. Dijkstra_loop loc_n n i ws \<noteq> Inl OutOfBounds \<and>
              Dijkstra_loop loc_n n i ws \<noteq> Inl DivByZero)"
proof (intro conjI)
  from wf_group_facts [OF wf] have pos: "0 < loc_n" by simp
  from glbl_min_spec [OF wf] obtain g where g: "glbl_min_of loc_n ws = Inr (Some g)"
    and w: "winner_spec loc_n ws g" by blast
  note rng = winner_range [OF wf w]
  have brk: "Dijkstra_round loc_n ws = Inr None \<and> (\<forall>w. after_reduce loc_n g w = Inr None)"
    if b: "snd g = - 1"
  proof -
    have "after_reduce loc_n g w = Inr None" for w
      using after_reduce_break [of loc_n "fst g" w] pos b by (cases g) simp
    with Dijkstra_round_break [OF wf g b] show ?thesis by simp
  qed
  have idx: "c_mod (snd g) loc_n = Inr (snd g mod loc_n) \<and>
               0 \<le> snd g mod loc_n \<and> snd g mod loc_n < loc_n \<and>
               (\<forall>loc_v. 0 \<le> loc_v \<and> loc_v < loc_n \<longrightarrow>
                   0 \<le> snd g * loc_n + loc_v \<and> snd g * loc_n + loc_v < n * loc_n)"
    if ne: "snd g \<noteq> - 1"
  proof -
    from rng ne have u: "0 \<le> snd g" "snd g < n" by simp_all
    have "c_mod (snd g) loc_n = Inr (snd g mod loc_n)"
      using pos u by (simp add: c_mod_def smod_nonneg)
    moreover have "0 \<le> snd g mod loc_n" "snd g mod loc_n < loc_n" using pos by simp_all
    moreover have "0 \<le> snd g * loc_n + loc_v \<and> snd g * loc_n + loc_v < n * loc_n"
      if "0 \<le> loc_v \<and> loc_v < loc_n" for loc_v
      using block_index_bound [OF u, of loc_v loc_n] that by simp
    ultimately show ?thesis by blast
  qed
  from g rng brk idx
  show "\<exists>g. glbl_min_of loc_n ws = Inr (Some g) \<and>
            (snd g = - 1 \<or> 0 \<le> snd g \<and> snd g < n) \<and>
            (snd g = - 1 \<longrightarrow>
               Dijkstra_round loc_n ws = Inr None \<and> (\<forall>w. after_reduce loc_n g w = Inr None)) \<and>
            (snd g \<noteq> - 1 \<longrightarrow>
               c_mod (snd g) loc_n = Inr (snd g mod loc_n) \<and>
               0 \<le> snd g mod loc_n \<and> snd g mod loc_n < loc_n \<and>
               (\<forall>loc_v. 0 \<le> loc_v \<and> loc_v < loc_n \<longrightarrow>
                   0 \<le> snd g * loc_n + loc_v \<and> snd g * loc_n + loc_v < n * loc_n))"
    by blast
  from round_faults [OF wf]
  show "Dijkstra_round loc_n ws \<noteq> Inl OutOfBounds" "Dijkstra_round loc_n ws \<noteq> Inl DivByZero"
    "\<forall>ws'. Dijkstra_round loc_n ws = Inr (Some ws') \<longrightarrow> wf_group n loc_n ws'"
    by (auto split: sum.splits option.splits)
  show "\<forall>i. Dijkstra_loop loc_n n i ws \<noteq> Inl OutOfBounds \<and>
              Dijkstra_loop loc_n n i ws \<noteq> Inl DivByZero"
  proof
    fix i
    from loop_faults [OF wf, of i]
    show "Dijkstra_loop loc_n n i ws \<noteq> Inl OutOfBounds \<and> Dijkstra_loop loc_n n i ws \<noteq> Inl DivByZero"
      by (auto split: sum.splits)
  qed
qed

theorem driver_loop_accesses_in_bounds_witness:
  "wf_group 4 2 scenario_group \<and>
   Dijkstra_round 2 scenario_group \<noteq> Inl OutOfBounds \<and>
   Dijkstra_loop 2 4 0 scenario_group \<noteq> Inl OutOfBounds \<and>
   (\<exists>g. glbl_min_of 2 scenario_group = Inr (Some g) \<and> (snd g = - 1 \<or> 0 \<le> snd g \<and> snd g < 4))"
  using driver_loop_accesses_in_bounds [OF scenario_group_wf] scenario_group_wf by blast

text \<open>
  C10. For every \<open>p\<close> that divides \<open>n\<close> and every matrix: when \<open>main\<close> arrives at the
  gathered predecessor array, following it from any vertex \<open>v\<close> in \<open>[0, n)\<close> (reached from
  the source or not) arrives at vertex \<open>0\<close> within \<open>n\<close> steps, and the \<open>while\<close> loop of
  \<open>Print_paths\<close> ends for every vertex, without leaving \<open>path\<close> or \<open>global_pred\<close>.
\<close>

theorem predecessor_chains_end_at_source:
  assumes p: "1 \<le> p" and n: "1 \<le> n" and dv: "n mod p = 0" and len: "int (length mat) = n * n"
    and m: "main True p n mat = Inr (gd, gp)"
  shows "int (length gp) = n \<and>
         (\<forall>v. 0 \<le> v \<and> v < n \<longrightarrow>
              reaches (nat n) gp v \<and> (\<exists>path. Print_path gp n v = Some (Inr path))) \<and>
         (\<forall>r \<in> set (Print_paths gp n). \<exists>path. r = Some (Inr path))"
proof -
  from m obtain loc_n ws ws' where s: "main_setup True p n mat = Inr (loc_n, ws)"
    and r: "Dijkstra loc_n n ws = Inr ws'" and g: "gp = global_pred loc_n ws'"
    unfolding main_def global_pred_def by (auto split: sum.splits)
  from main_setup_wf_start [OF p n len dv s] have wf: "wf_start n loc_n ws" .
  note ch = chains_end_at_source [OF wf r, folded g]
  have "wf_group n loc_n ws'"
  proof -
    from r obtain ws0 where
      c: "collect (map (\<lambda>w. Dijkstra_Init loc_n (w\<lparr>loc_known := replicate (nat loc_n) 0\<rparr>)) ws) = Inr ws0"
      and lp: "Dijkstra_loop loc_n n 0 ws0 = Inr ws'"
      unfolding Dijkstra_def by (auto split: sum.splits)
    from loop_faults [OF Init_chain(1) [OF wf c], of 0] lp show ?thesis by simp
  qed
  from global_length(2) [OF this] g have l: "int (length gp) = n" by simp
  have a: "\<forall>v. 0 \<le> v \<and> v < n \<longrightarrow>
              reaches (nat n) gp v \<and> (\<exists>path. Print_path gp n v = Some (Inr path))"
    using ch by blast
  have "\<exists>path. r = Some (Inr path)" if "r \<in> set (Print_paths gp n)" for r
  proof -
    from that obtain v where "v \<in> set [1..n - 1]" "r = Print_path gp n v"
      unfolding Print_paths_def by auto
    with ch [of v] show ?thesis by simp
  qed
  with l a show ?thesis by blast
qed

theorem predecessor_chains_end_at_source_witness:
  "(1::int) \<le> 2 \<and> (1::int) \<le> 4 \<and> (4::int) mod 2 = 0 \<and> int (length scenario) = 4 * 4 \<and>
   main True 2 4 scenario = Inr ([0, 1, 3, 1000000], [0, 0, 1, 0]) \<and>
   reaches (nat 4) [0, 0, 1, 0] 3 \<and>
   (\<exists>path. Print_path [0, 0, 1, 0] 4 3 = Some (Inr path))"
proof -
  have l: "int (length scenario) = 4 * 4" by (simp add: scenario_def)
  from predecessor_chains_end_at_source [OF _ _ _ l scenario_main_two]
  have "reaches (nat 4) [0, 0, 1, 0] 3 \<and> (\<exists>path. Print_path [0, 0, 1, 0] 4 3 = Some (Inr path))"
    by simp
  with l scenario_main_two show ?thesis by simp
qed

end
